theory Spec2Isabelle
  imports Main "HOL-Library.Sublist" "HOL-Library.AList"
begin

section \<open>Exceptions\<close>

text \<open>
  The Python exceptions the two modules can raise.  A failed \<^verbatim>\<open>assert\<close> is
  \<open>AssertionError\<close>, told apart by its message; the others come from the interpreter
  (\<open>AttributeError\<close> on \<^verbatim>\<open>None.text\<close>, \<open>TypeError\<close> on \<^verbatim>\<open>int(None)\<close>, \<open>ValueError\<close> on
  \<^verbatim>\<open>int('x')\<close>), from the operating system, and from the XML libraries (\<open>ParseError\<close>
  for a file that is not XML, \<open>ValueError\<close> for a text that XML cannot hold).
\<close>

datatype assertion =
    Not_A_Directory
  | No_JPEG_Images_Found
  | Could_Not_Read_Image
  | Sizes_Mismatched
  | Already_Exists

datatype error =
    AssertionError assertion
  | AttributeError
  | KeyError
  | TypeError
  | ValueError
  | IndexError
  | ZeroDivisionError
  | ParseError
  | FileNotFoundError
  | FileExistsError
  | IsADirectoryError
  | NotADirectoryError

text \<open>
  A command runs on a state and always hands the state back, together with either the
  exception it raised or its value: what was written before a raise stays written.
\<close>

type_synonym ('s, 'a) cmd = "'s \<Rightarrow> (error + 'a) \<times> 's"

definition succeed :: "'a \<Rightarrow> ('s, 'a) cmd" where
  "succeed x = (\<lambda>s. (Inr x, s))"

definition andthen :: "('s, 'a) cmd \<Rightarrow> ('a \<Rightarrow> ('s, 'b) cmd) \<Rightarrow> ('s, 'b) cmd" where
  "andthen m f = (\<lambda>s. case m s of (Inl e, s') \<Rightarrow> (Inl e, s') | (Inr x, s') \<Rightarrow> f x s')"

definition lift :: "error + 'a \<Rightarrow> ('s, 'a) cmd" where
  "lift r = (\<lambda>s. (r, s))"

section \<open>Python's \<^verbatim>\<open>str\<close> and \<^verbatim>\<open>int\<close> on integers\<close>

definition digit_char :: "nat \<Rightarrow> char" where
  "digit_char d = char_of (48 + d)"

definition is_digit :: "char \<Rightarrow> bool" where
  "is_digit c = (48 \<le> (of_char c :: nat) \<and> (of_char c :: nat) \<le> 57)"

definition digit_val :: "char \<Rightarrow> nat" where
  "digit_val c = of_char c - 48"

fun str_nat :: "nat \<Rightarrow> string" where
  "str_nat n = (if n < 10 then [digit_char n] else str_nat (n div 10) @ [digit_char (n mod 10)])"

declare str_nat.simps [simp del]

definition py_str_int :: "int \<Rightarrow> string" where
  "py_str_int i = (if i < 0 then CHR ''-'' # str_nat (nat (- i)) else str_nat (nat i))"

text \<open>
  \<^verbatim>\<open>int(s)\<close>: surrounding whitespace is stripped, one sign is allowed, and at least one
  decimal digit must follow, and nothing else (Python 3.5, which the modules name in
  their first line, allows no underscores between digits).  The whitespace characters
  are those of \<^verbatim>\<open>str.isspace\<close> below code point 256.
\<close>

definition py_isspace :: "char \<Rightarrow> bool" where
  "py_isspace c =
     (let n = (of_char c :: nat)
      in (9 \<le> n \<and> n \<le> 13) \<or> (28 \<le> n \<and> n \<le> 32) \<or> n = 133 \<or> n = 160)"

definition py_strip :: "string \<Rightarrow> string" where
  "py_strip s = rev (dropWhile py_isspace (rev (dropWhile py_isspace s)))"

definition digits_value :: "string \<Rightarrow> nat" where
  "digits_value ds = foldl (\<lambda>acc c. 10 * acc + digit_val c) 0 ds"

definition int_literal :: "string \<Rightarrow> bool" where
  "int_literal ds = (ds \<noteq> [] \<and> list_all is_digit ds)"

definition py_int :: "string \<Rightarrow> error + int" where
  "py_int s =
     (case py_strip s of
        [] \<Rightarrow> Inl ValueError
      | c # r \<Rightarrow>
          if c = CHR ''-'' then
            (if int_literal r then Inr (- int (digits_value r)) else Inl ValueError)
          else if c = CHR ''+'' then
            (if int_literal r then Inr (int (digits_value r)) else Inl ValueError)
          else
            (if int_literal (c # r) then Inr (int (digits_value (c # r))) else Inl ValueError))"

section \<open>Element trees\<close>

text \<open>
  What the program uses of an XML element: its tag, its text (\<^verbatim>\<open>None\<close> when the element
  has no character data) and its children in document order.
\<close>

datatype xml = Element (tag: string) (elem_text: "string option") (children: "xml list")

text \<open>
  lxml refuses a text that is not XML compatible (a control character other than tab,
  line feed and carriage return) with \<^verbatim>\<open>ValueError\<close>.
\<close>

definition xml_compatible :: "string \<Rightarrow> bool" where
  "xml_compatible s =
     list_all (\<lambda>c. 32 \<le> (of_char c :: nat) \<or> of_char c = (9::nat) \<or> of_char c = (10::nat)
                   \<or> of_char c = (13::nat)) s"

definition append_child :: "xml \<Rightarrow> xml \<Rightarrow> xml" where
  "append_child parent child = Element (tag parent) (elem_text parent) (children parent @ [child])"

definition find_child :: "string \<Rightarrow> xml \<Rightarrow> xml option" where
  "find_child name e = List.find (\<lambda>c. tag c = name) (children e)"

definition findall :: "string \<Rightarrow> xml \<Rightarrow> xml list" where
  "findall name e = filter (\<lambda>c. tag c = name) (children e)"

section \<open>Path names (\<^verbatim>\<open>posixpath\<close>)\<close>

definition is_abs :: "string \<Rightarrow> bool" where
  "is_abs p = (case p of [] \<Rightarrow> False | c # _ \<Rightarrow> c = CHR ''/'')"

definition os_path_join :: "string \<Rightarrow> string \<Rightarrow> string" where
  "os_path_join a b =
     (if is_abs b then b
      else if a = [] \<or> last a = CHR ''/'' then a @ b
      else a @ ''/'' @ b)"

definition os_path_basename :: "string \<Rightarrow> string" where
  "os_path_basename p = rev (takeWhile (\<lambda>c. c \<noteq> CHR ''/'') (rev p))"

definition os_path_dirname :: "string \<Rightarrow> string" where
  "os_path_dirname p =
     (let head = rev (dropWhile (\<lambda>c. c \<noteq> CHR ''/'') (rev p))
      in if head \<noteq> [] \<and> \<not> list_all (\<lambda>c. c = CHR ''/'') head
         then rev (dropWhile (\<lambda>c. c = CHR ''/'') (rev head))
         else head)"

text \<open>
  \<^verbatim>\<open>splitext\<close> cuts at the last dot of the last component, unless only dots come before
  it there.  \<open>body\<close> is that component up to and including its last dot.
\<close>

definition os_path_splitext :: "string \<Rightarrow> string \<times> string" where
  "os_path_splitext p =
     (let b = os_path_basename p;
          body = rev (dropWhile (\<lambda>c. c \<noteq> CHR ''.'') (rev b));
          cut = length p - (length b - length body + 1)
      in if body \<noteq> [] \<and> \<not> list_all (\<lambda>c. c = CHR ''.'') (butlast body)
         then (take cut p, drop cut p)
         else (p, []))"

section \<open>The file system\<close>

text \<open>
  A file holds an image that \<^verbatim>\<open>cv2.imread\<close> can decode (with its height and width), the
  bytes lxml prints for an element tree, or anything else.  The file system is the list
  of its nodes, each under its absolute name as a list of components, in directory
  order; the root directory is the empty name.  Names are resolved lexically: there are
  no symbolic links.
\<close>

datatype content = Image nat nat | Document xml | Garbage

datatype node = Dir | File content

record filesystem =
  entries :: "(string list \<times> node) list"
  cwd :: "string list"

fun split_slash :: "string \<Rightarrow> string list" where
  "split_slash [] = [[]]"
| "split_slash (c # cs) =
     (if c = CHR ''/'' then [] # split_slash cs
      else (case split_slash cs of [] \<Rightarrow> [[c]] | x # xs \<Rightarrow> (c # x) # xs))"

definition walk :: "string list \<Rightarrow> string \<Rightarrow> string list" where
  "walk acc c = (if c = [] \<or> c = ''.'' then acc else if c = ''..'' then butlast acc else acc @ [c])"

definition resolve :: "filesystem \<Rightarrow> string \<Rightarrow> string list" where
  "resolve fs p = foldl walk (if is_abs p then [] else cwd fs) (split_slash p)"

definition node_at :: "filesystem \<Rightarrow> string list \<Rightarrow> node option" where
  "node_at fs q = (if q = [] then Some Dir else map_of (entries fs) q)"

definition stat :: "filesystem \<Rightarrow> string \<Rightarrow> node option" where
  "stat fs p = (if p = [] then None else node_at fs (resolve fs p))"

definition os_path_exists :: "filesystem \<Rightarrow> string \<Rightarrow> bool" where
  "os_path_exists fs p = (stat fs p \<noteq> None)"

definition os_path_isdir :: "filesystem \<Rightarrow> string \<Rightarrow> bool" where
  "os_path_isdir fs p = (stat fs p = Some Dir)"

definition os_path_isfile :: "filesystem \<Rightarrow> string \<Rightarrow> bool" where
  "os_path_isfile fs p = (case stat fs p of Some (File _) \<Rightarrow> True | _ \<Rightarrow> False)"

definition os_listdir :: "filesystem \<Rightarrow> string \<Rightarrow> error + string list" where
  "os_listdir fs p =
     (case stat fs p of
        None \<Rightarrow> Inl FileNotFoundError
      | Some (File _) \<Rightarrow> Inl NotADirectoryError
      | Some Dir \<Rightarrow>
          Inr (map (\<lambda>(q, _). last q)
                 (filter (\<lambda>(q, _). q \<noteq> [] \<and> butlast q = resolve fs p) (entries fs))))"

text \<open>A new node needs its parent directory.\<close>

definition parent_error :: "filesystem \<Rightarrow> string list \<Rightarrow> error option" where
  "parent_error fs q =
     (case node_at fs (butlast q) of
        None \<Rightarrow> Some FileNotFoundError
      | Some (File _) \<Rightarrow> Some NotADirectoryError
      | Some Dir \<Rightarrow> None)"

definition put_node :: "string list \<Rightarrow> node \<Rightarrow> filesystem \<Rightarrow> filesystem" where
  "put_node q n fs = fs\<lparr>entries := AList.update q n (entries fs)\<rparr>"

definition os_mkdir :: "string \<Rightarrow> (filesystem, unit) cmd" where
  "os_mkdir p fs =
     (if p = [] then (Inl FileNotFoundError, fs)
      else let q = resolve fs p in
        case node_at fs q of
          Some _ \<Rightarrow> (Inl FileExistsError, fs)
        | None \<Rightarrow>
            (case parent_error fs q of
               Some e \<Rightarrow> (Inl e, fs)
             | None \<Rightarrow> (Inr (), put_node q Dir fs)))"

definition os_remove :: "string \<Rightarrow> (filesystem, unit) cmd" where
  "os_remove p fs =
     (case stat fs p of
        None \<Rightarrow> (Inl FileNotFoundError, fs)
      | Some Dir \<Rightarrow> (Inl IsADirectoryError, fs)
      | Some (File _) \<Rightarrow> (Inr (), fs\<lparr>entries := AList.delete (resolve fs p) (entries fs)\<rparr>))"

text \<open>
  \<^verbatim>\<open>with open(p, 'wb') as f: f.write(data)\<close>: the file is created or truncated, then
  holds exactly \<open>data\<close>.
\<close>

definition write_file :: "string \<Rightarrow> content \<Rightarrow> (filesystem, unit) cmd" where
  "write_file p data fs =
     (if p = [] then (Inl FileNotFoundError, fs)
      else let q = resolve fs p in
        case node_at fs q of
          Some Dir \<Rightarrow> (Inl IsADirectoryError, fs)
        | Some (File _) \<Rightarrow> (Inr (), put_node q (File data) fs)
        | None \<Rightarrow>
            (case parent_error fs q of
               Some e \<Rightarrow> (Inl e, fs)
             | None \<Rightarrow> (Inr (), put_node q (File data) fs)))"

text \<open>
  \<^verbatim>\<open>cv2.imread\<close> returns \<^verbatim>\<open>None\<close> for anything it cannot decode, and a three-channel
  array otherwise; only its shape matters here.
\<close>

definition imread :: "filesystem \<Rightarrow> string \<Rightarrow> (nat \<times> nat \<times> nat) option" where
  "imread fs p = (case stat fs p of Some (File (Image h w)) \<Rightarrow> Some (h, w, 3) | _ \<Rightarrow> None)"

text \<open>
  \<^verbatim>\<open>etree.tostring\<close> followed by \<^verbatim>\<open>ET.parse\<close>: the parser reports no text for an element
  printed with empty text, so \<^verbatim>\<open>''\<close> is read back as \<^verbatim>\<open>None\<close>.  The indentation that
  pretty printing adds around child elements is left out: nothing reads it.
\<close>

fun reread :: "xml \<Rightarrow> xml" where
  "reread (Element t x cs) = Element t (if x = Some [] then None else x) (map reread cs)"

definition ET_parse :: "filesystem \<Rightarrow> string \<Rightarrow> error + xml" where
  "ET_parse fs p =
     (case stat fs p of
        None \<Rightarrow> Inl FileNotFoundError
      | Some Dir \<Rightarrow> Inl IsADirectoryError
      | Some (File (Document t)) \<Rightarrow> Inr (reread t)
      | Some (File _) \<Rightarrow> Inl ParseError)"

section \<open>The annotation codec (\<^verbatim>\<open>datasets/generate_pascalvoc_annotations.py\<close>)\<close>

type_synonym bbox = "int \<times> int \<times> int \<times> int"

text \<open>
  The values handed to \<^verbatim>\<open>str\<close>: a label is a string, or \<^verbatim>\<open>None\<close> when it was read from
  a \<^verbatim>\<open>name\<close> element without text; sizes and coordinates are integers.
\<close>

datatype pyval = PyNone | PyInt int | PyStr string

fun py_str :: "pyval \<Rightarrow> string" where
  "py_str PyNone = ''None''"
| "py_str (PyInt i) = py_str_int i"
| "py_str (PyStr s) = s"

definition label_val :: "string option \<Rightarrow> pyval" where
  "label_val l = (case l of None \<Rightarrow> PyNone | Some s \<Rightarrow> PyStr s)"

definition ROOT_NAME :: string where "ROOT_NAME = ''annotation''"
definition OBJECT_ELEMENT_NAME :: string where "OBJECT_ELEMENT_NAME = ''object''"
definition ANNOTATION_DEFAULT_DIR :: string where "ANNOTATION_DEFAULT_DIR = ''Annotations/''"

definition attempt :: "error + 'a \<Rightarrow> ('a \<Rightarrow> error + 'b) \<Rightarrow> error + 'b" where
  "attempt r f = (case r of Inl e \<Rightarrow> Inl e | Inr x \<Rightarrow> f x)"

definition generate_xml_element_with_text :: "string \<Rightarrow> pyval \<Rightarrow> error + xml" where
  "generate_xml_element_with_text name v =
     (if xml_compatible (py_str v) then Inr (Element name (Some (py_str v)) [])
      else Inl ValueError)"

definition generate_object_annotation :: "pyval \<Rightarrow> bbox \<Rightarrow> error + xml" where
  "generate_object_annotation obj_name bbox =
     (case bbox of (xmin, ymin, xmax, ymax) \<Rightarrow>
        attempt (generate_xml_element_with_text ''name'' obj_name) (\<lambda>e1.
        attempt (generate_xml_element_with_text ''truncated'' (PyInt 0)) (\<lambda>e2.
        attempt (generate_xml_element_with_text ''difficult'' (PyInt 0)) (\<lambda>e3.
        attempt (generate_xml_element_with_text ''xmin'' (PyInt xmin)) (\<lambda>b1.
        attempt (generate_xml_element_with_text ''ymin'' (PyInt ymin)) (\<lambda>b2.
        attempt (generate_xml_element_with_text ''xmax'' (PyInt xmax)) (\<lambda>b3.
        attempt (generate_xml_element_with_text ''ymax'' (PyInt ymax)) (\<lambda>b4.
          Inr (foldl append_child (Element OBJECT_ELEMENT_NAME None [])
                 [e1, e2, e3,
                  foldl append_child (Element ''bndbox'' None []) [b1, b2, b3, b4]])))))))))"

text \<open>The loop over \<^verbatim>\<open>zip(obj_names, bboxes)\<close>, appending to the root.\<close>

fun append_objects :: "xml \<Rightarrow> (pyval \<times> bbox) list \<Rightarrow> error + xml" where
  "append_objects root [] = Inr root"
| "append_objects root ((obj_name, bbox) # rest) =
     attempt (generate_object_annotation obj_name bbox) (\<lambda>obj.
       append_objects (append_child root obj) rest)"

text \<open>
  \<^verbatim>\<open>generate_pascalvoc_annotation_from_image\<close> in its two halves: the tree it builds from
  the image's shape, the labels and the boxes, and the write of a tree to a path.
\<close>

definition annotation_tree ::
  "nat \<times> nat \<times> nat \<Rightarrow> pyval list \<Rightarrow> bbox list \<Rightarrow> error + xml" where
  "annotation_tree shape obj_names bboxes =
     (case shape of (height, width, depth) \<Rightarrow>
        attempt (generate_xml_element_with_text ''width'' (PyInt (int width))) (\<lambda>w.
        attempt (generate_xml_element_with_text ''height'' (PyInt (int height))) (\<lambda>h.
        attempt (generate_xml_element_with_text ''depth'' (PyInt (int depth))) (\<lambda>d.
          append_objects
            (append_child (Element ROOT_NAME None [])
               (foldl append_child (Element ''size'' None []) [w, h, d]))
            (zip obj_names bboxes)))))"

definition write_annotation :: "xml \<Rightarrow> string \<Rightarrow> bool \<Rightarrow> (filesystem, unit) cmd" where
  "write_annotation root file_path overwrite fs =
     (if \<not> overwrite \<and> os_path_exists fs file_path then (Inl (AssertionError Already_Exists), fs)
      else write_file file_path (Document root) fs)"

definition generate_pascalvoc_annotation_from_image ::
  "nat \<times> nat \<times> nat \<Rightarrow> pyval list \<Rightarrow> bbox list \<Rightarrow> string \<Rightarrow> bool \<Rightarrow> (filesystem, unit) cmd" where
  "generate_pascalvoc_annotation_from_image img obj_names bboxes file_path overwrite =
     andthen (lift (annotation_tree img obj_names bboxes)) (\<lambda>root.
       write_annotation root file_path overwrite)"

definition generate_pascvalvoc_annotation_from_image_file ::
  "string \<Rightarrow> pyval list \<Rightarrow> bbox list \<Rightarrow> string option \<Rightarrow> bool \<Rightarrow> (filesystem, unit) cmd" where
  "generate_pascvalvoc_annotation_from_image_file img_path obj_names bboxes annotation_dir overwrite fs =
     (let img_file_name = fst (os_path_splitext img_path) in
      case imread fs img_path of
        None \<Rightarrow> (Inl (AssertionError Could_Not_Read_Image), fs)
      | Some img \<Rightarrow>
          (case annotation_dir of
             None \<Rightarrow>
               generate_pascalvoc_annotation_from_image img obj_names bboxes
                 (img_file_name @ ''.xml'') overwrite fs
           | Some adir \<Rightarrow>
               let img_folder = os_path_dirname img_file_name;
                   img_name = os_path_basename img_file_name;
                   annotation_folder = os_path_join img_folder adir
               in andthen
                    (if \<not> os_path_exists fs annotation_folder then os_mkdir annotation_folder
                     else succeed ())
                    (\<lambda>_. generate_pascalvoc_annotation_from_image img obj_names bboxes
                            (os_path_join annotation_folder img_name @ ''.xml'') overwrite)
                    fs))"

section \<open>Reading an annotation back (\<^verbatim>\<open>_parse_pascalvoc_annoation\<close>)\<close>

text \<open>\<^verbatim>\<open>int(bbox.find(name).text)\<close>, where \<open>bbox\<close> itself may be \<^verbatim>\<open>None\<close>.\<close>

definition int_of_field :: "xml option \<Rightarrow> string \<Rightarrow> error + int" where
  "int_of_field bbox name =
     (case bbox of
        None \<Rightarrow> Inl AttributeError
      | Some b \<Rightarrow>
          (case find_child name b of
             None \<Rightarrow> Inl AttributeError
           | Some e \<Rightarrow> (case elem_text e of None \<Rightarrow> Inl TypeError | Some t \<Rightarrow> py_int t)))"

definition parse_object :: "xml \<Rightarrow> error + (string option \<times> bbox)" where
  "parse_object obj =
     (case find_child ''name'' obj of
        None \<Rightarrow> Inl AttributeError
      | Some n \<Rightarrow>
          let bbox = find_child ''bndbox'' obj in
          attempt (int_of_field bbox ''xmin'') (\<lambda>xmin.
          attempt (int_of_field bbox ''ymin'') (\<lambda>ymin.
          attempt (int_of_field bbox ''xmax'') (\<lambda>xmax.
          attempt (int_of_field bbox ''ymax'') (\<lambda>ymax.
            Inr (elem_text n, (xmin, ymin, xmax, ymax)))))))"

fun parse_objects ::
  "xml list \<Rightarrow> bbox list \<Rightarrow> string option list \<Rightarrow> error + (bbox list \<times> string option list)" where
  "parse_objects [] bboxes labels = Inr (bboxes, labels)"
| "parse_objects (obj # rest) bboxes labels =
     attempt (parse_object obj) (\<lambda>(label, bbox).
       parse_objects rest (bboxes @ [bbox]) (labels @ [label]))"

definition parse_tree :: "xml \<Rightarrow> error + (bbox list \<times> string option list)" where
  "parse_tree root = parse_objects (findall ''object'' root) [] []"

definition parse_pascalvoc_annoation ::
  "filesystem \<Rightarrow> string \<Rightarrow> error + (bbox list \<times> string option list)" where
  "parse_pascalvoc_annoation fs path = attempt (ET_parse fs path) parse_tree"

section \<open>The annotator session (\<^verbatim>\<open>pascalvoc_annotator.py\<close>)\<close>

definition PASCAL_VOC_IMAGE_EXTENSION :: string where "PASCAL_VOC_IMAGE_EXTENSION = ''.jpg''"
definition QUIT_KEY :: char where "QUIT_KEY = CHR ''q''"
definition CLEAR_KEY :: char where "CLEAR_KEY = CHR ''c''"
definition NEXT_KEY :: char where "NEXT_KEY = CHR ''n''"
definition PREV_KEY :: char where "PREV_KEY = CHR ''p''"
definition UNDO_KEY :: char where "UNDO_KEY = CHR ''u''"

text \<open>
  The fields of a \<^verbatim>\<open>PascalVOCAnnotator\<close>.  \<^verbatim>\<open>_cur_bboxes\<close> and \<^verbatim>\<open>_cur_labels\<close> are
  references to list objects, which the dictionary \<^verbatim>\<open>_annotations\<close> holds too: an append
  through one is seen through the other.  So list objects live in a store under
  addresses, \<open>bbox_lists\<close> and \<open>label_lists\<close> give their contents, and \<open>next_addr\<close> is
  the next free address.  \<open>index\<close> is \<open>None\<close> until \<^verbatim>\<open>_index\<close> is first assigned
  (the test of \<^verbatim>\<open>hasattr\<close>).  The box being drawn is \<^verbatim>\<open>[]\<close> (here \<open>None\<close>) or the list
  of four coordinates \<^verbatim>\<open>[x, y]*2\<close>.  Of the image only its shape is kept.
\<close>

type_synonym addr = nat

record annotator =
  folder :: string
  obj_label :: string
  img_paths :: "string list"
  index :: "int option"
  cur_img :: "(nat \<times> nat \<times> nat) option"
  cur_bboxes :: addr
  cur_labels :: addr
  changed :: bool
  bbbox_in_progress :: "bbox option"
  annotations :: "string \<rightharpoonup> addr \<times> addr"
  bbox_lists :: "addr \<Rightarrow> bbox list"
  label_lists :: "addr \<Rightarrow> string option list"
  next_addr :: addr

type_synonym world = "annotator \<times> filesystem"

definition annotation_dir :: "annotator \<Rightarrow> string" where
  "annotation_dir s = os_path_join (folder s) ANNOTATION_DEFAULT_DIR"

definition cur_img_path :: "annotator \<Rightarrow> error + string" where
  "cur_img_path s =
     (case index s of
        None \<Rightarrow> Inl AttributeError
      | Some i \<Rightarrow>
          let n = int (length (img_paths s)); j = (if i < 0 then n + i else i)
          in if 0 \<le> j \<and> j < n then Inr (img_paths s ! nat j) else Inl IndexError)"

text \<open>Two new list objects with the given contents, entered in the dictionary under \<open>key\<close>.\<close>

definition store_lists ::
  "string \<Rightarrow> bbox list \<Rightarrow> string option list \<Rightarrow> annotator \<Rightarrow> annotator" where
  "store_lists key bs ls s =
     s\<lparr>annotations := (annotations s)(key \<mapsto> (next_addr s, next_addr s + 1)),
       bbox_lists := (bbox_lists s)(next_addr s := bs),
       label_lists := (label_lists s)(next_addr s + 1 := ls),
       next_addr := next_addr s + 2\<rparr>"

definition annotation_file_path :: "annotator \<Rightarrow> string \<Rightarrow> string" where
  "annotation_file_path s img_path =
     os_path_join (annotation_dir s)
       (os_path_basename (fst (os_path_splitext img_path)) @ ''.xml'')"

fun remove_annotation_file_when_empty :: "(world, unit) cmd" where
  "remove_annotation_file_when_empty (s, fs) =
     (if index s = None then (Inr (), (s, fs))
      else case cur_img_path s of
        Inl e \<Rightarrow> (Inl e, (s, fs))
      | Inr p \<Rightarrow>
          if bbox_lists s (cur_bboxes s) = []
             \<or> (label_lists s (cur_labels s) = [] \<and> os_path_isfile fs (annotation_file_path s p))
          then (case os_remove (annotation_file_path s p) fs of (r, fs') \<Rightarrow> (r, (s, fs')))
          else (Inr (), (s, fs)))"

definition undo :: "annotator \<Rightarrow> annotator" where
  "undo s =
     (if bbbox_in_progress s = None \<and> bbox_lists s (cur_bboxes s) \<noteq> []
         \<and> label_lists s (cur_labels s) \<noteq> []
      then s\<lparr>changed := True,
             bbox_lists := (bbox_lists s)(cur_bboxes s := butlast (bbox_lists s (cur_bboxes s))),
             label_lists := (label_lists s)(cur_labels s := butlast (label_lists s (cur_labels s)))\<rparr>
      else s)"

datatype mouse_event = EVENT_LBUTTONDOWN | EVENT_MOUSEMOVE | EVENT_LBUTTONUP | EVENT_OTHER

fun mouse_callback :: "mouse_event \<Rightarrow> int \<Rightarrow> int \<Rightarrow> annotator \<Rightarrow> annotator" where
  "mouse_callback EVENT_LBUTTONDOWN x y s = s\<lparr>bbbox_in_progress := Some (x, y, x, y)\<rparr>"
| "mouse_callback EVENT_MOUSEMOVE x y s =
     (case bbbox_in_progress s of
        None \<Rightarrow> s
      | Some (x0, y0, x1, y1) \<Rightarrow> s\<lparr>bbbox_in_progress := Some (x0, y0, x, y)\<rparr>)"
| "mouse_callback EVENT_LBUTTONUP x y s =
     (case bbbox_in_progress s of
        None \<Rightarrow> s
      | Some b \<Rightarrow>
          s\<lparr>changed := True,
            bbox_lists := (bbox_lists s)(cur_bboxes s := bbox_lists s (cur_bboxes s) @ [b]),
            label_lists :=
              (label_lists s)(cur_labels s := label_lists s (cur_labels s) @ [Some (obj_label s)]),
            bbbox_in_progress := None\<rparr>)"
| "mouse_callback EVENT_OTHER x y s = s"

text \<open>
  The setter of \<^verbatim>\<open>index\<close>, in its three steps: the save of the outgoing image, the
  removal of its annotation file, and the load of the incoming image.
\<close>

fun save_when_changed :: "(world, unit) cmd" where
  "save_when_changed (s, fs) =
     (if cur_img s \<noteq> None \<and> bbox_lists s (cur_bboxes s) \<noteq> [] \<and> changed s then
        if length (label_lists s (cur_labels s)) \<noteq> length (bbox_lists s (cur_bboxes s))
        then (Inl (AssertionError Sizes_Mismatched), (s, fs))
        else case cur_img_path s of
          Inl e \<Rightarrow> (Inl e, (s, fs))
        | Inr p \<Rightarrow>
            (case generate_pascvalvoc_annotation_from_image_file p
                    (map label_val (label_lists s (cur_labels s))) (bbox_lists s (cur_bboxes s))
                    (Some (annotation_dir s)) True fs
             of (r, fs') \<Rightarrow> (r, (s, fs')))
      else (Inr (), (s, fs)))"

fun load_image :: "int \<Rightarrow> (world, unit) cmd" where
  "load_image v (s, fs) =
     (if img_paths s = [] then (Inl ZeroDivisionError, (s, fs))
      else
        let s1 = s\<lparr>index := Some (v mod int (length (img_paths s)))\<rparr> in
        case cur_img_path s1 of
          Inl e \<Rightarrow> (Inl e, (s1, fs))
        | Inr p \<Rightarrow>
            let s2 = s1\<lparr>cur_img := imread fs p\<rparr>;
                s3 = (if annotations s2 p = None then store_lists p [] [] s2 else s2)
            in case annotations s3 p of
                 None \<Rightarrow> (Inl KeyError, (s3, fs))
               | Some (bs, ls) \<Rightarrow>
                   let s4 = s3\<lparr>cur_bboxes := bs, cur_labels := ls\<rparr>
                   in if cur_img s4 = None
                      then (Inl (AssertionError Could_Not_Read_Image), (s4, fs))
                      else (Inr (), (s4\<lparr>changed := False\<rparr>, fs)))"

definition index_setter :: "int \<Rightarrow> (world, unit) cmd" where
  "index_setter v =
     andthen save_when_changed (\<lambda>_.
     andthen remove_annotation_file_when_empty (\<lambda>_.
     load_image v))"

definition index_getter :: "annotator \<Rightarrow> error + int" where
  "index_getter s = (case index s of None \<Rightarrow> Inl AttributeError | Some i \<Rightarrow> Inr i)"

fun next_image :: "(world, unit) cmd" where
  "next_image (s, fs) =
     (case index_getter s of Inl e \<Rightarrow> (Inl e, (s, fs)) | Inr i \<Rightarrow> index_setter (i + 1) (s, fs))"

fun prev_image :: "(world, unit) cmd" where
  "prev_image (s, fs) =
     (case index_getter s of Inl e \<Rightarrow> (Inl e, (s, fs)) | Inr i \<Rightarrow> index_setter (i - 1) (s, fs))"

fun clear :: "(world, unit) cmd" where
  "clear (s, fs) =
     (let s1 = s\<lparr>cur_img := None, changed := True\<rparr> in
      case cur_img_path s1 of
        Inl e \<Rightarrow> (Inl e, (s1, fs))
      | Inr p \<Rightarrow>
          let s2 = (if annotations s1 p \<noteq> None
                    then s1\<lparr>annotations := (annotations s1)(p := None)\<rparr> else s1)
          in case index_getter s2 of
               Inl e \<Rightarrow> (Inl e, (s2, fs))
             | Inr i \<Rightarrow> index_setter i (s2, fs))"

text \<open>
  \<^verbatim>\<open>update\<close> with the key that \<^verbatim>\<open>_get_key\<close> returned.  Of the drawing only the copy of
  the current image is kept, which needs an image.
\<close>

fun update :: "char \<Rightarrow> (world, bool) cmd" where
  "update key (s, fs) =
     (if cur_img s = None then (Inl AttributeError, (s, fs))
      else if key = QUIT_KEY then (Inr True, (s, fs))
      else if key = NEXT_KEY then andthen next_image (\<lambda>_. succeed False) (s, fs)
      else if key = PREV_KEY then andthen prev_image (\<lambda>_. succeed False) (s, fs)
      else if key = CLEAR_KEY then andthen clear (\<lambda>_. succeed False) (s, fs)
      else if key = UNDO_KEY then (Inr False, (undo s, fs))
      else (Inr False, (s, fs)))"

text \<open>\<^verbatim>\<open>__exit__\<close>, which runs when the loop is left.\<close>

fun exit_session :: "(world, unit) cmd" where
  "exit_session (s, fs) =
     (if changed s then
        (case index_getter s of Inl e \<Rightarrow> (Inl e, (s, fs)) | Inr i \<Rightarrow> index_setter (i + 1) (s, fs))
      else (Inr (), (s, fs)))"

text \<open>
  \<^verbatim>\<open>_load_saved_annotations\<close>: every entry of the annotation directory is parsed and
  entered under the image path of the same stem.
\<close>

fun load_files :: "filesystem \<Rightarrow> string list \<Rightarrow> annotator \<Rightarrow> error + annotator" where
  "load_files fs [] s = Inr s"
| "load_files fs (filename # rest) s =
     (let key = os_path_join (folder s)
                  (os_path_basename (fst (os_path_splitext filename)) @ PASCAL_VOC_IMAGE_EXTENSION)
      in attempt (parse_pascalvoc_annoation fs (os_path_join (annotation_dir s) filename))
           (\<lambda>(bs, ls). load_files fs rest (store_lists key bs ls s)))"

definition load_saved_annotations :: "filesystem \<Rightarrow> annotator \<Rightarrow> error + annotator" where
  "load_saved_annotations fs s =
     (if os_path_isdir fs (annotation_dir s)
      then attempt (os_listdir fs (annotation_dir s)) (\<lambda>names. load_files fs names s)
      else Inr s)"

text \<open>
  \<^verbatim>\<open>__init__\<close>.  The two empty lists it first binds to \<^verbatim>\<open>_cur_bboxes\<close> and \<^verbatim>\<open>_cur_labels\<close>
  are the objects at addresses 0 and 1.
\<close>

definition new_annotator :: "string \<Rightarrow> string \<Rightarrow> string list \<Rightarrow> annotator" where
  "new_annotator dir label paths =
     \<lparr>folder = dir, obj_label = label, img_paths = paths, index = None, cur_img = None,
      cur_bboxes = 0, cur_labels = 1, changed = False, bbbox_in_progress = None,
      annotations = Map.empty, bbox_lists = (\<lambda>_. []), label_lists = (\<lambda>_. []),
      next_addr = 2\<rparr>"

definition init :: "string \<Rightarrow> string \<Rightarrow> filesystem \<Rightarrow> error + world" where
  "init dir label fs =
     (if \<not> os_path_isdir fs dir then Inl (AssertionError Not_A_Directory)
      else
        attempt (os_listdir fs dir) (\<lambda>names.
          let paths = map (os_path_join dir)
                        (filter (\<lambda>filename. sublist PASCAL_VOC_IMAGE_EXTENSION filename) names)
          in if paths = [] then Inl (AssertionError No_JPEG_Images_Found)
             else
               attempt (load_saved_annotations fs (new_annotator dir label paths)) (\<lambda>s.
                 case index_setter 0 (s, fs) of
                   (Inl e, _) \<Rightarrow> Inl e
                 | (Inr _, w) \<Rightarrow> Inr w)))"

text \<open>The events of the loop: a call of \<^verbatim>\<open>_mouse_callback\<close>, or one \<^verbatim>\<open>update\<close> with its key.\<close>

datatype event = Mouse mouse_event int int | Key char

fun handle :: "event \<Rightarrow> (world, bool) cmd" where
  "handle (Mouse ev x y) (s, fs) = (Inr False, (mouse_callback ev x y s, fs))"
| "handle (Key k) (s, fs) = update k (s, fs)"

text \<open>
  When \<^verbatim>\<open>open(p, 'wb')\<close> succeeds: the name is not a directory, and it is an existing
  file or a new name in an existing directory.
\<close>

definition can_open_for_writing :: "filesystem \<Rightarrow> string \<Rightarrow> bool" where
  "can_open_for_writing fs p =
     (p \<noteq> [] \<and>
      (case node_at fs (resolve fs p) of
         Some Dir \<Rightarrow> False
       | Some (File _) \<Rightarrow> True
       | None \<Rightarrow> node_at fs (butlast (resolve fs p)) = Some Dir))"

section \<open>Example inputs\<close>

text \<open>A folder \<^verbatim>\<open>/d\<close> with two images and no annotations.\<close>

definition example_disk :: filesystem where
  "example_disk =
     \<lparr>entries =
        [([''d''], Dir),
         ([''d'', ''a.jpg''], File (Image 4 6)),
         ([''d'', ''b.jpg''], File (Image 4 6))],
      cwd = []\<rparr>"

section \<open>The annotation file format\<close>

text \<open>
  The document of the file format: a \<^verbatim>\<open>size\<close> block with width, height and depth, then
  one \<^verbatim>\<open>object\<close> block for each label and box, with \<^verbatim>\<open>truncated\<close> and \<^verbatim>\<open>difficult\<close>
  always \<^verbatim>\<open>0\<close>.
\<close>

definition object_block :: "string \<Rightarrow> bbox \<Rightarrow> xml" where
  "object_block label bbox =
     (case bbox of (xmin, ymin, xmax, ymax) \<Rightarrow>
        Element ''object'' None
          [Element ''name'' (Some label) [],
           Element ''truncated'' (Some ''0'') [],
           Element ''difficult'' (Some ''0'') [],
           Element ''bndbox'' None
             [Element ''xmin'' (Some (py_str_int xmin)) [],
              Element ''ymin'' (Some (py_str_int ymin)) [],
              Element ''xmax'' (Some (py_str_int xmax)) [],
              Element ''ymax'' (Some (py_str_int ymax)) []]])"

definition annotation_document :: "nat \<times> nat \<times> nat \<Rightarrow> (string \<times> bbox) list \<Rightarrow> xml" where
  "annotation_document shape objects =
     (case shape of (height, width, depth) \<Rightarrow>
        Element ''annotation'' None
          (Element ''size'' None
             [Element ''width'' (Some (py_str_int (int width))) [],
              Element ''height'' (Some (py_str_int (int height))) [],
              Element ''depth'' (Some (py_str_int (int depth))) []]
           # map (\<lambda>(label, bbox). object_block label bbox) objects))"

text \<open>
  Encoding and then decoding: the tree is printed and parsed again, which is
  \<open>reread\<close>, and the objects are read from the parsed tree.
\<close>

definition encode_then_parse ::
  "nat \<times> nat \<times> nat \<Rightarrow> pyval list \<Rightarrow> bbox list \<Rightarrow> error + (bbox list \<times> string option list)" where
  "encode_then_parse shape obj_names bboxes =
     attempt (annotation_tree shape obj_names bboxes) (\<lambda>root. parse_tree (reread root))"

text \<open>The text the parser reports for an element that was printed with text \<open>s\<close>.\<close>

definition text_read_back :: "string \<Rightarrow> string option" where
  "text_read_back s = (if s = [] then None else Some s)"

section \<open>What the reader requires of a file\<close>

text \<open>
  A text is an integer when, with the surrounding whitespace removed, it is a run of
  decimal digits after at most one sign.
\<close>

definition is_integer_text :: "string \<Rightarrow> bool" where
  "is_integer_text t =
     (case py_strip t of
        [] \<Rightarrow> False
      | c # r \<Rightarrow> if c = CHR ''-'' \<or> c = CHR ''+'' then int_literal r else int_literal (c # r))"

text \<open>
  An object block is well formed when it has a \<^verbatim>\<open>name\<close> element and a \<^verbatim>\<open>bndbox\<close> element
  whose four coordinate elements are present and hold integers.  Its label is the text
  of the \<^verbatim>\<open>name\<close> element and its box the four coordinates; for a block that is not
  well formed they default to \<^verbatim>\<open>None\<close> and 0.
\<close>

definition has_integer_field :: "xml \<Rightarrow> string \<Rightarrow> bool" where
  "has_integer_field box name =
     (case find_child name box of
        None \<Rightarrow> False
      | Some e \<Rightarrow> (case elem_text e of None \<Rightarrow> False | Some t \<Rightarrow> is_integer_text t))"

definition well_formed_object :: "xml \<Rightarrow> bool" where
  "well_formed_object obj =
     (find_child ''name'' obj \<noteq> None \<and>
      (case find_child ''bndbox'' obj of
         None \<Rightarrow> False
       | Some box \<Rightarrow> list_all (has_integer_field box) [''xmin'', ''ymin'', ''xmax'', ''ymax'']))"

definition field_value :: "xml \<Rightarrow> string \<Rightarrow> int" where
  "field_value box name =
     (case find_child name box of
        None \<Rightarrow> 0
      | Some e \<Rightarrow> (case elem_text e of
                     None \<Rightarrow> 0
                   | Some t \<Rightarrow> (case py_int t of Inl _ \<Rightarrow> 0 | Inr i \<Rightarrow> i)))"

definition object_label :: "xml \<Rightarrow> string option" where
  "object_label obj = (case find_child ''name'' obj of None \<Rightarrow> None | Some n \<Rightarrow> elem_text n)"

definition object_bbox :: "xml \<Rightarrow> bbox" where
  "object_bbox obj =
     (case find_child ''bndbox'' obj of
        None \<Rightarrow> (0, 0, 0, 0)
      | Some box \<Rightarrow> (field_value box ''xmin'', field_value box ''ymin'',
                     field_value box ''xmax'', field_value box ''ymax''))"

text \<open>The exceptions for a missing field, a field without text and a non-integer text.\<close>

definition field_error :: "error \<Rightarrow> bool" where
  "field_error e = (e = AttributeError \<or> e = TypeError \<or> e = ValueError)"

text \<open>
  A file is malformed when it is not a printed element tree; the object blocks of a file
  are the \<^verbatim>\<open>object\<close> children of the root of its tree, in document order.
\<close>

definition malformed :: "content \<Rightarrow> bool" where
  "malformed c = (case c of Document _ \<Rightarrow> False | _ \<Rightarrow> True)"

definition object_blocks :: "content \<Rightarrow> xml list" where
  "object_blocks c = (case c of Document t \<Rightarrow> findall ''object'' (reread t) | _ \<Rightarrow> [])"

text \<open>
  A folder \<^verbatim>\<open>/d\<close> with two images and the annotation of the first, and a folder \<^verbatim>\<open>/e\<close>
  with an annotation whose \<^verbatim>\<open>xmin\<close> is not an integer and a file that is not XML.
\<close>

definition cat_annotation :: xml where
  "cat_annotation = annotation_document (4, 6, 3) [(''cat'', (10, 10, 50, 50))]"

definition bad_annotation :: xml where
  "bad_annotation =
     Element ''annotation'' None
       [Element ''object'' None
          [Element ''name'' (Some ''cat'') [],
           Element ''bndbox'' None
             [Element ''xmin'' (Some ''ten'') [], Element ''ymin'' (Some ''10'') [],
              Element ''xmax'' (Some ''50'') [], Element ''ymax'' (Some ''50'') []]]]"

definition annotated_disk :: filesystem where
  "annotated_disk =
     \<lparr>entries =
        [([''d''], Dir),
         ([''d'', ''a.jpg''], File (Image 4 6)),
         ([''d'', ''b.jpg''], File (Image 4 6)),
         ([''d'', ''Annotations''], Dir),
         ([''d'', ''Annotations'', ''a.xml''], File (Document cat_annotation)),
         ([''e''], Dir),
         ([''e'', ''bad.xml''], File (Document bad_annotation)),
         ([''e'', ''junk.xml''], File Garbage)],
      cwd = []\<rparr>"

section \<open>Runs of the session\<close>

text \<open>
  The loop of \<^verbatim>\<open>run\<close> on the events that arrive, up to the first exception or the quit
  key.
\<close>

fun run_events :: "event list \<Rightarrow> (world, bool) cmd" where
  "run_events [] w = (Inr False, w)"
| "run_events (ev # evs) w =
     (case handle ev w of
        (Inl e, w') \<Rightarrow> (Inl e, w')
      | (Inr should_quit, w') \<Rightarrow> if should_quit then (Inr True, w') else run_events evs w')"

text \<open>
  The states a session can be in: the one \<^verbatim>\<open>__init__\<close> returns, and every state that an
  event or \<^verbatim>\<open>__exit__\<close> leaves behind, whether it returned or raised (\<^verbatim>\<open>__exit__\<close> still
  runs after an exception).
\<close>

inductive reachable :: "world \<Rightarrow> bool" where
  start: "init dir label fs = Inr w \<Longrightarrow> reachable w"
| step: "reachable w \<Longrightarrow> handle ev w = (r, w') \<Longrightarrow> reachable w'"
| leave: "reachable w \<Longrightarrow> exit_session w = (r, w') \<Longrightarrow> reachable w'"

text \<open>
  The invariant of the store: the two current lists have the same length, and so have
  the two lists of every dictionary entry; distinct entries share no list; an entry
  shares a list with the current pair only if it is the current pair; every address in
  use is allocated.
\<close>

definition heap_ok ::
  "(addr \<Rightarrow> bbox list) \<Rightarrow> (addr \<Rightarrow> string option list) \<Rightarrow> addr \<Rightarrow> addr \<Rightarrow> addr
     \<Rightarrow> (string \<rightharpoonup> addr \<times> addr) \<Rightarrow> bool" where
  "heap_ok B L cb cl n A =
     (length (B cb) = length (L cl) \<and> cb < n \<and> cl < n
      \<and> (\<forall>p a b. A p = Some (a, b) \<longrightarrow>
             length (B a) = length (L b) \<and> a < n \<and> b < n \<and> ((a = cb) = (b = cl)))
      \<and> (\<forall>p q a b c d. A p = Some (a, b) \<and> A q = Some (c, d) \<longrightarrow> (a = c) = (b = d)))"

definition heap_inv :: "annotator \<Rightarrow> bool" where
  "heap_inv s =
     heap_ok (bbox_lists s) (label_lists s) (cur_bboxes s) (cur_labels s) (next_addr s)
       (annotations s)"

text \<open>The index is set and within the list of image paths.\<close>

fun index_in_range :: "int option \<Rightarrow> nat \<Rightarrow> bool" where
  "index_in_range None n = False"
| "index_in_range (Some i) n = (0 \<le> i \<and> i < int n)"

definition index_ok :: "annotator \<Rightarrow> bool" where
  "index_ok s = index_in_range (index s) (length (img_paths s))"

text \<open>
  The session on the example folder with label \<^verbatim>\<open>cat\<close>: as constructed, while a box
  is being drawn, and after the box (10, 10)-(50, 50) was drawn.
\<close>

definition fresh_session :: world where
  "fresh_session =
     (case init ''/d'' ''cat'' example_disk of
        Inl _ \<Rightarrow> (new_annotator [] [] [], example_disk)
      | Inr w \<Rightarrow> w)"

definition draw_box :: "event list" where
  "draw_box =
     [Mouse EVENT_LBUTTONDOWN 10 10, Mouse EVENT_MOUSEMOVE 50 50, Mouse EVENT_LBUTTONUP 50 50]"

definition drawn_session :: world where
  "drawn_session = snd (run_events draw_box fresh_session)"

definition drawing_session :: world where
  "drawing_session = snd (run_events [Mouse EVENT_LBUTTONDOWN 10 10] fresh_session)"

text \<open>The invariant of the session.\<close>

definition session_inv :: "annotator \<Rightarrow> bool" where
  "session_inv s = (heap_inv s \<and> index_ok s)"

section \<open>What the construction requires of a folder\<close>

text \<open>
  The entries of the folder whose name contains \<^verbatim>\<open>.jpg\<close>, in directory order, and
  whether every entry of the folder's annotation directory, if there is one, can be read
  as an annotation.
\<close>

definition image_names :: "filesystem \<Rightarrow> string \<Rightarrow> string list" where
  "image_names fs dir =
     (case os_listdir fs dir of
        Inl _ \<Rightarrow> []
      | Inr names \<Rightarrow> filter (sublist PASCAL_VOC_IMAGE_EXTENSION) names)"

definition parses :: "filesystem \<Rightarrow> string \<Rightarrow> bool" where
  "parses fs p = (case parse_pascalvoc_annoation fs p of Inl _ \<Rightarrow> False | Inr _ \<Rightarrow> True)"

definition saved_annotations_parse :: "filesystem \<Rightarrow> string \<Rightarrow> bool" where
  "saved_annotations_parse fs dir =
     (let adir = os_path_join dir ANNOTATION_DEFAULT_DIR in
      \<not> os_path_isdir fs adir
      \<or> (case os_listdir fs adir of
            Inl _ \<Rightarrow> False
          | Inr names \<Rightarrow> list_all (\<lambda>filename. parses fs (os_path_join adir filename)) names))"

text \<open>A folder whose only image cannot be decoded.\<close>

definition unreadable_disk :: filesystem where
  "unreadable_disk = \<lparr>entries = [([''d''], Dir), ([''d'', ''a.jpg''], File Garbage)], cwd = []\<rparr>"

text \<open>Whether a result is a value, and the exception if it is not.\<close>

definition succeeds :: "error + 'a \<Rightarrow> bool" where
  "succeeds r = (case r of Inl _ \<Rightarrow> False | Inr _ \<Rightarrow> True)"

definition error_of :: "error + 'a \<Rightarrow> error option" where
  "error_of r = (case r of Inl e \<Rightarrow> Some e | Inr _ \<Rightarrow> None)"

text \<open>A command run \<open>n\<close> times in a row, up to the first exception.\<close>

fun repeat :: "nat \<Rightarrow> (world, unit) cmd \<Rightarrow> (world, unit) cmd" where
  "repeat 0 c w = (Inr (), w)"
| "repeat (Suc n) c w = (case c w of (Inl e, w') \<Rightarrow> (Inl e, w') | (Inr _, w') \<Rightarrow> repeat n c w')"

text \<open>
  Sessions on the example folder with the first image annotated, with both images
  annotated, and with the first image annotated and the second one not decodable.
\<close>

definition half_readable_disk :: filesystem where
  "half_readable_disk =
     \<lparr>entries =
        [([''d''], Dir),
         ([''d'', ''a.jpg''], File (Image 4 6)),
         ([''d'', ''b.jpg''], File Garbage),
         ([''d'', ''Annotations''], Dir),
         ([''d'', ''Annotations'', ''a.xml''], File (Document cat_annotation))],
      cwd = []\<rparr>"

definition half_readable_session :: world where
  "half_readable_session =
     (case init ''/d'' ''cat'' half_readable_disk of
        Inl _ \<Rightarrow> (new_annotator [] [] [], half_readable_disk)
      | Inr w \<Rightarrow> w)"

definition dog_annotation :: xml where
  "dog_annotation = annotation_document (4, 6, 3) [(''dog'', (1, 2, 3, 4)), (''cat'', (5, 6, 7, 8))]"

definition fully_annotated_disk :: filesystem where
  "fully_annotated_disk =
     \<lparr>entries =
        [([''d''], Dir),
         ([''d'', ''a.jpg''], File (Image 4 6)),
         ([''d'', ''b.jpg''], File (Image 4 6)),
         ([''d'', ''Annotations''], Dir),
         ([''d'', ''Annotations'', ''a.xml''], File (Document cat_annotation)),
         ([''d'', ''Annotations'', ''b.xml''], File (Document dog_annotation))],
      cwd = []\<rparr>"

definition fully_annotated_session :: world where
  "fully_annotated_session =
     (case init ''/d'' ''cat'' fully_annotated_disk of
        Inl _ \<Rightarrow> (new_annotator [] [] [], fully_annotated_disk)
      | Inr w \<Rightarrow> w)"

text \<open>
  The three transitions of the session: the next key, the previous key, and leaving the
  loop, which runs \<^verbatim>\<open>__exit__\<close>.
\<close>

datatype transition = Next | Previous | Quit

definition perform :: "transition \<Rightarrow> (world, unit) cmd" where
  "perform t = (case t of Next \<Rightarrow> next_image | Previous \<Rightarrow> prev_image | Quit \<Rightarrow> exit_session)"

abbreviation current_bboxes :: "annotator \<Rightarrow> bbox list" where
  "current_bboxes s \<equiv> bbox_lists s (cur_bboxes s)"

abbreviation current_labels :: "annotator \<Rightarrow> string option list" where
  "current_labels s \<equiv> label_lists s (cur_labels s)"

text \<open>
  A folder with one image whose annotation file holds no object, and the session on it.
\<close>

definition empty_annotation_disk :: filesystem where
  "empty_annotation_disk =
     \<lparr>entries =
        [([''d''], Dir),
         ([''d'', ''a.jpg''], File (Image 4 6)),
         ([''d'', ''Annotations''], Dir),
         ([''d'', ''Annotations'', ''a.xml''], File (Document (annotation_document (4, 6, 3) [])))],
      cwd = []\<rparr>"

definition empty_annotation_session :: world where
  "empty_annotation_session =
     (case init ''/d'' ''cat'' empty_annotation_disk of
        Inl _ \<Rightarrow> (new_annotator [] [] [], empty_annotation_disk)
      | Inr w \<Rightarrow> w)"

text \<open>
  On the folder with both images annotated: the session after Clear on the first image,
  after Next from there, and after Previous from there.
\<close>

definition cleared_session :: world where
  "cleared_session = snd (clear fully_annotated_session)"

definition away_session :: world where
  "away_session = snd (perform Next cleared_session)"

definition returned_session :: world where
  "returned_session = snd (perform Previous away_session)"

text \<open>
  The session started as \<^verbatim>\<open>-f d -l cat\<close> from the root directory, on the same example
  folder named by a relative path, and that session after the box was drawn.
\<close>

definition relative_session :: world where
  "relative_session =
     (case init ''d'' ''cat'' example_disk of
        Inl _ \<Rightarrow> (new_annotator [] [] [], example_disk)
      | Inr w \<Rightarrow> w)"

definition relative_drawn_session :: world where
  "relative_drawn_session = snd (run_events draw_box relative_session)"

text \<open>The session on the example folder after the box was drawn and undone again.\<close>

definition undone_session :: world where
  "undone_session = snd (run_events (draw_box @ [Key UNDO_KEY]) fresh_session)"

section \<open>Conversions between integers and their decimal strings\<close>

lemma of_char_digit_char: "d < 10 \<Longrightarrow> (of_char (digit_char d) :: nat) = 48 + d"
  by (simp add: digit_char_def)

lemma digit_char_props:
  assumes "d < 10"
  shows "is_digit (digit_char d)" and "digit_val (digit_char d) = d"
    and "\<not> py_isspace (digit_char d)" and "32 \<le> (of_char (digit_char d) :: nat)"
  using assms by (simp_all add: is_digit_def digit_val_def py_isspace_def of_char_digit_char)

lemma is_digit_not_sign: "is_digit c \<Longrightarrow> c \<noteq> CHR ''-'' \<and> c \<noteq> CHR ''+''"
  by (auto simp: is_digit_def)

lemma is_digit_not_space: "is_digit c \<Longrightarrow> \<not> py_isspace c"
  by (auto simp: is_digit_def py_isspace_def)

lemma str_nat_digits: "list_all is_digit (str_nat n)"
  by (induction n rule: str_nat.induct) (subst str_nat.simps, simp add: digit_char_props)

lemma str_nat_not_Nil: "str_nat n \<noteq> []"
  by (subst str_nat.simps) simp

lemma digits_value_snoc: "digits_value (ds @ [c]) = 10 * digits_value ds + digit_val c"
  by (simp add: digits_value_def)

lemma digits_value_str_nat: "digits_value (str_nat n) = n"
proof (induction n rule: str_nat.induct)
  case (1 n)
  show ?case
  proof (cases "n < 10")
    case True
    then show ?thesis by (subst str_nat.simps) (simp add: digits_value_def digit_char_props)
  next
    case False
    with 1 show ?thesis by (subst str_nat.simps) (simp add: digits_value_snoc digit_char_props)
  qed
qed


lemma py_strip_id:
  assumes "s \<noteq> []" "\<not> py_isspace (hd s)" "\<not> py_isspace (last s)"
  shows "py_strip s = s"
proof -
  from assms have front: "dropWhile py_isspace s = s"
    by (cases s) simp_all
  from assms have "rev s \<noteq> []" "\<not> py_isspace (hd (rev s))"
    by (simp_all add: hd_rev)
  then have "dropWhile py_isspace (rev s) = rev s"
    by (cases "rev s") simp_all
  with front show ?thesis
    by (simp add: py_strip_def)
qed

lemma int_literal_ends:
  assumes "int_literal ds"
  shows "ds \<noteq> []" "is_digit (hd ds)" "is_digit (last ds)"
  using assms by (auto simp: int_literal_def list_all_iff)

lemma py_int_literal: 
  assumes "int_literal ds"
  shows "py_int ds = Inr (int (digits_value ds))"
proof -
  from assms have "py_strip ds = ds"
    by (intro py_strip_id) (auto dest: int_literal_ends is_digit_not_space)
  moreover obtain c r where "ds = c # r"
    using int_literal_ends(1)[OF assms] by (cases ds) auto
  moreover from this assms have "c \<noteq> CHR ''-''" "c \<noteq> CHR ''+''"
    using int_literal_ends(2)[OF assms] is_digit_not_sign by auto
  ultimately show ?thesis
    using assms by (simp add: py_int_def)
qed

lemma py_int_minus_literal: 
  assumes "int_literal ds"
  shows "py_int (CHR ''-'' # ds) = Inr (- int (digits_value ds))"
proof -
  have "\<not> py_isspace CHR ''-''"
    by (simp add: py_isspace_def)
  moreover have "\<not> py_isspace (last ds)" "ds \<noteq> []"
    using assms by (auto dest: int_literal_ends is_digit_not_space)
  ultimately have "py_strip (CHR ''-'' # ds) = CHR ''-'' # ds"
    by (intro py_strip_id) simp_all
  then show ?thesis
    using assms by (simp add: py_int_def)
qed

lemma int_literal_str_nat: "int_literal (str_nat n)"
  by (simp add: int_literal_def str_nat_digits str_nat_not_Nil)

lemma py_int_py_str_int: "py_int (py_str_int i) = Inr i"
  by (simp add: py_str_int_def py_int_literal py_int_minus_literal int_literal_str_nat
      digits_value_str_nat)

lemma xml_compatible_py_str_int: "xml_compatible (py_str_int i)"
proof -
  have "xml_compatible (str_nat n)" for n
    using str_nat_digits [of n] unfolding xml_compatible_def list_all_iff is_digit_def by auto
  then show ?thesis
    by (simp add: py_str_int_def xml_compatible_def)
qed

lemma py_str_int_not_Nil: "py_str_int i \<noteq> []"
  by (simp add: py_str_int_def str_nat_not_Nil)

section \<open>The file system\<close>

lemma resolve_put_node [simp]: "resolve (put_node q n fs) p = resolve fs p"
  by (simp add: resolve_def put_node_def)

lemma node_at_root [simp]: "node_at fs [] = Some Dir"
  by (simp add: node_at_def)

lemma node_at_put_node:
  "q \<noteq> [] \<Longrightarrow> node_at (put_node q n fs) q' = (if q' = q then Some n else node_at fs q')"
  by (simp add: node_at_def put_node_def update_conv')

lemma stat_put_node:
  "q \<noteq> [] \<Longrightarrow>
   stat (put_node q n fs) p = (if p \<noteq> [] \<and> resolve fs p = q then Some n else stat fs p)"
  by (simp add: stat_def node_at_put_node)

lemma write_file_cases:
  "write_file p data fs =
     (if can_open_for_writing fs p then (Inr (), put_node (resolve fs p) (File data) fs)
      else (Inl (if p = [] then FileNotFoundError
                 else case node_at fs (resolve fs p) of
                        Some _ \<Rightarrow> IsADirectoryError
                      | None \<Rightarrow> (case node_at fs (butlast (resolve fs p)) of
                                   None \<Rightarrow> FileNotFoundError | Some _ \<Rightarrow> NotADirectoryError)), fs))"
  by (auto simp: write_file_def can_open_for_writing_def parent_error_def Let_def
      split: option.splits node.splits)

lemma resolve_not_root_if_writable: "can_open_for_writing fs p \<Longrightarrow> resolve fs p \<noteq> []"
  by (auto simp: can_open_for_writing_def node_at_def)

section \<open>Writing an annotation\<close>

text \<open>
  C10: when the write is invoked with \<^verbatim>\<open>overwrite\<close> false on a path that exists, it
  fails at the existence check, before the file is opened: the file system, and so the
  content of the existing file, is what it was.  This holds for the write of a tree and
  for the whole of \<^verbatim>\<open>generate_pascalvoc_annotation_from_image\<close>, whatever it raises.
\<close>

theorem rejected_write_leaves_disk_unchanged:
  assumes "os_path_exists fs file_path"
  shows "write_annotation root file_path False fs = (Inl (AssertionError Already_Exists), fs)
       \<and> (\<exists>e. generate_pascalvoc_annotation_from_image img obj_names bboxes file_path False fs
                 = (Inl e, fs))"
  using assms
  by (cases "annotation_tree img obj_names bboxes")
     (simp_all add: write_annotation_def generate_pascalvoc_annotation_from_image_def
       andthen_def lift_def)

text \<open>An instance: writing over the existing \<^verbatim>\<open>/d/a.jpg\<close>.\<close>

theorem rejected_write_leaves_disk_unchanged_witness:
  "os_path_exists example_disk ''/d/a.jpg''
   \<and> write_annotation (Element ''annotation'' None []) ''/d/a.jpg'' False example_disk
       = (Inl (AssertionError Already_Exists), example_disk)"
proof -
  have h: "os_path_exists example_disk ''/d/a.jpg''"
    by code_simp
  from rejected_write_leaves_disk_unchanged [OF h] h show ?thesis
    by simp
qed

text \<open>
  C3, amended: the write fails with the already-exists assertion whenever \<^verbatim>\<open>overwrite\<close>
  is false and the path exists.  Otherwise, when the path can be opened for writing (it
  is not a directory, and is an existing file or a new name in an existing directory),
  the file at the path holds exactly the document afterwards, whatever it held before,
  and every other name is untouched; when the path cannot be opened, the write fails
  with the error of \<^verbatim>\<open>open\<close> and changes nothing.
\<close>

theorem write_annotation_cases:
  "(\<not> overwrite \<and> os_path_exists fs p \<longrightarrow>
      write_annotation root p overwrite fs = (Inl (AssertionError Already_Exists), fs))
   \<and> ((overwrite \<or> \<not> os_path_exists fs p) \<and> can_open_for_writing fs p \<longrightarrow>
        (\<exists>fs'. write_annotation root p overwrite fs = (Inr (), fs')
           \<and> stat fs' p = Some (File (Document root))
           \<and> ET_parse fs' p = Inr (reread root)
           \<and> (\<forall>p'. resolve fs p' \<noteq> resolve fs p \<longrightarrow> stat fs' p' = stat fs p')))
   \<and> ((overwrite \<or> \<not> os_path_exists fs p) \<and> \<not> can_open_for_writing fs p \<longrightarrow>
        (\<exists>e. write_annotation root p overwrite fs = (Inl e, fs)
           \<and> e \<noteq> AssertionError Already_Exists))"
proof (intro conjI impI)
  assume "\<not> overwrite \<and> os_path_exists fs p"
  then show "write_annotation root p overwrite fs = (Inl (AssertionError Already_Exists), fs)"
    by (simp add: write_annotation_def)
next
  assume a: "(overwrite \<or> \<not> os_path_exists fs p) \<and> can_open_for_writing fs p"
  let ?fs' = "put_node (resolve fs p) (File (Document root)) fs"
  from a have q: "resolve fs p \<noteq> []" and p: "p \<noteq> []"
    by (auto dest: resolve_not_root_if_writable simp: can_open_for_writing_def)
  from a have "write_annotation root p overwrite fs = (Inr (), ?fs')"
    by (auto simp: write_annotation_def write_file_cases)
  moreover from q p have "stat ?fs' p = Some (File (Document root))"
    by (simp add: stat_put_node)
  moreover from this have "ET_parse ?fs' p = Inr (reread root)"
    by (simp add: ET_parse_def)
  moreover from q have "\<forall>p'. resolve fs p' \<noteq> resolve fs p \<longrightarrow> stat ?fs' p' = stat fs p'"
    by (simp add: stat_put_node)
  ultimately show "\<exists>fs'. write_annotation root p overwrite fs = (Inr (), fs')
           \<and> stat fs' p = Some (File (Document root))
           \<and> ET_parse fs' p = Inr (reread root)
           \<and> (\<forall>p'. resolve fs p' \<noteq> resolve fs p \<longrightarrow> stat fs' p' = stat fs p')"
    by blast
next
  assume "(overwrite \<or> \<not> os_path_exists fs p) \<and> \<not> can_open_for_writing fs p"
  then show "\<exists>e. write_annotation root p overwrite fs = (Inl e, fs)
           \<and> e \<noteq> AssertionError Already_Exists"
    by (auto simp: write_annotation_def write_file_cases split: option.splits)
qed

text \<open>
  The claim as stated fails: with \<^verbatim>\<open>overwrite\<close> true, a write to a path that is a
  directory serializes nothing, and neither does a write to a path that does not exist
  in a directory that does not exist.
\<close>

theorem write_to_directory_fails:
  "write_annotation (Element ''annotation'' None []) ''/d'' True example_disk
     = (Inl IsADirectoryError, example_disk)
   \<and> os_path_exists example_disk ''/x/a.xml'' = False
   \<and> write_annotation (Element ''annotation'' None []) ''/x/a.xml'' False example_disk
       = (Inl FileNotFoundError, example_disk)"
  by code_simp

text \<open>The three cases on the example folder.\<close>

theorem write_annotation_cases_witness:
  "write_annotation (Element ''annotation'' None []) ''/d/a.jpg'' False example_disk
     = (Inl (AssertionError Already_Exists), example_disk)
   \<and> (\<exists>fs'. write_annotation (Element ''annotation'' None []) ''/d/c.xml'' False example_disk
              = (Inr (), fs')
          \<and> stat fs' ''/d/c.xml'' = Some (File (Document (Element ''annotation'' None []))))
   \<and> (\<exists>e. write_annotation (Element ''annotation'' None []) ''/x/c.xml'' True example_disk
             = (Inl e, example_disk)
          \<and> e \<noteq> AssertionError Already_Exists)"
proof -
  have h1: "\<not> False \<and> os_path_exists example_disk ''/d/a.jpg''"
    by code_simp
  have h2: "(False \<or> \<not> os_path_exists example_disk ''/d/c.xml'')
            \<and> can_open_for_writing example_disk ''/d/c.xml''"
    by code_simp
  have h3: "(True \<or> \<not> os_path_exists example_disk ''/x/c.xml'')
            \<and> \<not> can_open_for_writing example_disk ''/x/c.xml''"
    by code_simp
  from write_annotation_cases [of False example_disk "''/d/a.jpg''" "Element ''annotation'' None []"]
       write_annotation_cases [of False example_disk "''/d/c.xml''" "Element ''annotation'' None []"]
       write_annotation_cases [of True example_disk "''/x/c.xml''" "Element ''annotation'' None []"]
       h1 h2 h3
  show ?thesis
    by blast
qed

section \<open>The codec\<close>

lemma py_str_int_0: "py_str_int 0 = ''0''"
  by code_simp

lemma element_of_int [simp]:
  "generate_xml_element_with_text name (PyInt i) = Inr (Element name (Some (py_str_int i)) [])"
  by (simp add: generate_xml_element_with_text_def xml_compatible_py_str_int)

lemma generate_object_annotation_eq:
  "generate_object_annotation obj_name bbox =
     (if xml_compatible (py_str obj_name) then Inr (object_block (py_str obj_name) bbox)
      else Inl ValueError)"
  by (cases bbox)
     (simp add: generate_object_annotation_def object_block_def attempt_def append_child_def
       OBJECT_ELEMENT_NAME_def generate_xml_element_with_text_def py_str_int_0
       xml_compatible_py_str_int xml_compatible_py_str_int [of 0, unfolded py_str_int_0])

lemma append_objects_eq:
  assumes "\<forall>(n, b) \<in> set pairs. xml_compatible (py_str n)"
  shows "append_objects root pairs =
           Inr (Element (tag root) (elem_text root)
                  (children root @ map (\<lambda>(n, b). object_block (py_str n) b) pairs))"
  using assms
proof (induction pairs arbitrary: root)
  case Nil
  then show ?case by simp
next
  case (Cons a pairs)
  obtain n b where a: "a = (n, b)" by (cases a)
  with Cons show ?case
    by (simp add: generate_object_annotation_eq attempt_def append_child_def)
qed

lemma annotation_tree_eq:
  assumes "\<forall>n \<in> set obj_names. xml_compatible (py_str n)"
  shows "annotation_tree shape obj_names bboxes =
           Inr (annotation_document shape (zip (map py_str obj_names) bboxes))"
proof -
  from assms have "\<forall>(n, b) \<in> set (zip obj_names bboxes). xml_compatible (py_str n)"
    by (auto dest: set_zip_leftD)
  then show ?thesis
    by (cases shape)
       (simp add: annotation_tree_def attempt_def append_objects_eq append_child_def
         ROOT_NAME_def annotation_document_def zip_map1 case_prod_unfold)
qed

lemma parse_object_block:
  "parse_object (reread (object_block label bbox)) = Inr (text_read_back label, bbox)"
  by (cases bbox)
     (simp add: object_block_def parse_object_def find_child_def int_of_field_def attempt_def
       py_str_int_not_Nil py_int_py_str_int text_read_back_def)

lemma parse_objects_blocks:
  "parse_objects (map (\<lambda>(l, b). reread (object_block l b)) objects) bs ls =
     Inr (bs @ map snd objects, ls @ map (text_read_back \<circ> fst) objects)"
proof (induction objects arbitrary: bs ls)
  case Nil
  then show ?case by simp
next
  case (Cons a objects)
  then show ?case
    by (cases a) (simp add: parse_object_block attempt_def)
qed

lemma tag_object_block [simp]: "tag (reread (object_block l b)) = ''object''"
  by (cases b) (simp add: object_block_def)

lemma parse_annotation_document:
  "parse_tree (reread (annotation_document shape objects)) =
     Inr (map snd objects, map (text_read_back \<circ> fst) objects)"
proof -
  have "findall ''object'' (reread (annotation_document shape objects)) =
          map (\<lambda>(l, b). reread (object_block l b)) objects"
    by (cases shape)
       (simp add: findall_def annotation_document_def filter_map comp_def case_prod_unfold)
  then show ?thesis
    using parse_objects_blocks [of objects "[]" "[]"] by (simp add: parse_tree_def)
qed

lemma write_annotation_success:
  assumes "write_annotation root p overwrite fs = (Inr (), fs')"
  shows "stat fs' p = Some (File (Document root))"
proof -
  from assms have w: "can_open_for_writing fs p"
    and fs': "fs' = put_node (resolve fs p) (File (Document root)) fs"
    by (auto simp: write_annotation_def write_file_cases split: if_splits)
  from w have "resolve fs p \<noteq> []" "p \<noteq> []"
    by (auto dest: resolve_not_root_if_writable simp: can_open_for_writing_def)
  with fs' show ?thesis
    by (simp add: stat_put_node)
qed

lemma generate_from_image_success:
  assumes "generate_pascalvoc_annotation_from_image img obj_names bboxes p overwrite fs = (Inr (), fs')"
  shows "\<exists>root. annotation_tree img obj_names bboxes = Inr root
           \<and> stat fs' p = Some (File (Document root))"
  using assms
  by (cases "annotation_tree img obj_names bboxes")
     (auto simp: generate_pascalvoc_annotation_from_image_def andthen_def lift_def
       dest: write_annotation_success)

text \<open>
  C2, amended: for label and box sequences of equal length, where every label is a
  non-empty string of XML-compatible characters, and any image dimensions, encoding
  them to an annotation document and decoding that document yields the boxes and the
  labels, equal to the originals and in the same order; so does reading back a file that
  \<^verbatim>\<open>generate_pascalvoc_annotation_from_image\<close> has written.
\<close>

theorem encode_decode_roundtrip:
  assumes "length labels = length bboxes"
    and "\<forall>l \<in> set labels. l \<noteq> [] \<and> xml_compatible l"
  shows "encode_then_parse shape (map PyStr labels) bboxes = Inr (bboxes, map Some labels)
       \<and> (\<forall>p overwrite fs fs'.
            generate_pascalvoc_annotation_from_image shape (map PyStr labels) bboxes p overwrite fs
              = (Inr (), fs')
            \<longrightarrow> parse_pascalvoc_annoation fs' p = Inr (bboxes, map Some labels))"
proof -
  let ?doc = "annotation_document shape (zip labels bboxes)"
  from assms(2) have tree: "annotation_tree shape (map PyStr labels) bboxes = Inr ?doc"
    by (subst annotation_tree_eq) (auto simp: comp_def)
  from assms(2) have "map (text_read_back \<circ> fst) (zip labels bboxes) = map Some (map fst (zip labels bboxes))"
    by (auto simp: text_read_back_def dest: set_zip_leftD)
  with assms(1) have parse: "parse_tree (reread ?doc) = Inr (bboxes, map Some labels)"
    by (simp add: parse_annotation_document)
  from tree parse have "encode_then_parse shape (map PyStr labels) bboxes = Inr (bboxes, map Some labels)"
    by (simp add: encode_then_parse_def attempt_def)
  moreover have "parse_pascalvoc_annoation fs' p = Inr (bboxes, map Some labels)"
    if "generate_pascalvoc_annotation_from_image shape (map PyStr labels) bboxes p overwrite fs
              = (Inr (), fs')" for p overwrite fs fs'
    using generate_from_image_success [OF that] tree parse
    by (auto simp: parse_pascalvoc_annoation_def ET_parse_def attempt_def)
  ultimately show ?thesis
    by blast
qed

text \<open>The labels and boxes of the module's own test.\<close>

theorem encode_decode_roundtrip_witness:
  "encode_then_parse (4, 6, 3) [PyStr ''red roomba'', PyStr ''green roomba'']
       [(548, 472, 878, 753), (697, 293, 982, 531)]
     = Inr ([(548, 472, 878, 753), (697, 293, 982, 531)], [Some ''red roomba'', Some ''green roomba''])
   \<and> parse_pascalvoc_annoation
        (snd (generate_pascalvoc_annotation_from_image (4, 6, 3)
                [PyStr ''red roomba'', PyStr ''green roomba'']
                [(548, 472, 878, 753), (697, 293, 982, 531)] ''/d/a.xml'' False example_disk))
        ''/d/a.xml''
      = Inr ([(548, 472, 878, 753), (697, 293, 982, 531)], [Some ''red roomba'', Some ''green roomba''])"
proof -
  have len: "length [''red roomba'', ''green roomba''] = length [(548, 472, 878, 753), (697, 293, 982, 531 :: int)]"
    by simp
  have ok: "\<forall>l \<in> set [''red roomba'', ''green roomba'']. l \<noteq> [] \<and> xml_compatible l"
    by (simp add: xml_compatible_def)
  have run: "fst (generate_pascalvoc_annotation_from_image (4, 6, 3)
                (map PyStr [''red roomba'', ''green roomba''])
                [(548, 472, 878, 753), (697, 293, 982, 531)] ''/d/a.xml'' False example_disk) = Inr ()"
    by code_simp
  from encode_decode_roundtrip [OF len ok, of "(4, 6, 3)"] run show ?thesis
    by (simp add: prod_eq_iff)
qed

text \<open>
  The claim as stated fails for the empty label: an element printed with empty text is
  parsed as an element without text, and the label comes back as \<^verbatim>\<open>None\<close>.
\<close>

theorem empty_label_not_read_back:
  "encode_then_parse (4, 6, 3) [PyStr []] [(10, 10, 50, 50)] = Inr ([(10, 10, 50, 50)], [None])
   \<and> encode_then_parse (4, 6, 3) [PyStr []] [(10, 10, 50, 50)] \<noteq> Inr ([(10, 10, 50, 50)], [Some []])"
  by code_simp

section \<open>Reading an annotation\<close>

lemma py_int_fails_iff: "(py_int t = Inl ValueError) = (\<not> is_integer_text t)"
  by (auto simp: py_int_def is_integer_text_def split: list.splits)

lemma py_int_error: "py_int t = Inl e \<Longrightarrow> e = ValueError"
  by (auto simp: py_int_def split: list.splits if_splits)

lemma int_of_field_cases:
  "int_of_field (Some box) name =
     (if has_integer_field box name then Inr (field_value box name)
      else Inl (case find_child name box of
                  None \<Rightarrow> AttributeError
                | Some e \<Rightarrow> (case elem_text e of None \<Rightarrow> TypeError | Some t \<Rightarrow> ValueError)))"
  by (cases "find_child name box")
     (auto simp: int_of_field_def has_integer_field_def field_value_def py_int_fails_iff [symmetric]
       split: option.splits sum.splits dest: py_int_error)

lemma parse_object_cases:
  "(well_formed_object obj \<longrightarrow> parse_object obj = Inr (object_label obj, object_bbox obj))
   \<and> (\<not> well_formed_object obj \<longrightarrow> (\<exists>e. parse_object obj = Inl e \<and> field_error e))"
proof (cases "find_child ''name'' obj")
  case None
  then show ?thesis
    by (simp add: parse_object_def well_formed_object_def field_error_def)
next
  case name: (Some n)
  show ?thesis
  proof (cases "find_child ''bndbox'' obj")
    case None
    with name show ?thesis
      by (simp add: parse_object_def well_formed_object_def field_error_def int_of_field_def
          attempt_def)
  next
    case (Some box)
    with name show ?thesis
      by (auto simp: parse_object_def well_formed_object_def field_error_def int_of_field_cases
          attempt_def object_label_def object_bbox_def split: option.splits)
  qed
qed

lemma parse_objects_cases:
  "(list_all well_formed_object objs \<longrightarrow>
      parse_objects objs bs ls = Inr (bs @ map object_bbox objs, ls @ map object_label objs))
   \<and> (\<not> list_all well_formed_object objs \<longrightarrow>
        (\<exists>e. parse_objects objs bs ls = Inl e \<and> field_error e))"
proof (induction objs arbitrary: bs ls)
  case Nil
  then show ?case by simp
next
  case (Cons obj objs)
  show ?case
  proof (cases "well_formed_object obj")
    case True
    with parse_object_cases [of obj] Cons.IH [of "bs @ [object_bbox obj]" "ls @ [object_label obj]"]
    show ?thesis
      by (simp add: attempt_def)
  next
    case False
    with parse_object_cases [of obj] show ?thesis
      by (auto simp: attempt_def)
  qed
qed

text \<open>
  C6: for every file, the read fails exactly when the file is malformed or some object
  block lacks its name, its box or one of the four coordinates, or holds a coordinate
  that is not an integer.  A malformed file raises \<^verbatim>\<open>ParseError\<close>, a bad field
  \<^verbatim>\<open>AttributeError\<close>, \<^verbatim>\<open>TypeError\<close> or \<^verbatim>\<open>ValueError\<close>.  Otherwise the read returns the
  boxes and the labels of the object blocks in document order, as two aligned sequences.
\<close>

theorem read_fails_exactly_when_malformed:
  assumes "stat fs path = Some (File c)"
  shows "((\<exists>e. parse_pascalvoc_annoation fs path = Inl e) \<longleftrightarrow>
            malformed c \<or> (\<exists>obj \<in> set (object_blocks c). \<not> well_formed_object obj))
       \<and> (malformed c \<longrightarrow> parse_pascalvoc_annoation fs path = Inl ParseError)
       \<and> (\<not> malformed c \<and> (\<exists>obj \<in> set (object_blocks c). \<not> well_formed_object obj) \<longrightarrow>
            (\<exists>e. parse_pascalvoc_annoation fs path = Inl e \<and> field_error e))
       \<and> (\<not> malformed c \<and> (\<forall>obj \<in> set (object_blocks c). well_formed_object obj) \<longrightarrow>
            parse_pascalvoc_annoation fs path
              = Inr (map object_bbox (object_blocks c), map object_label (object_blocks c)))"
proof (cases c)
  case (Document t)
  with assms have "parse_pascalvoc_annoation fs path = parse_objects (object_blocks c) [] []"
    by (simp add: parse_pascalvoc_annoation_def ET_parse_def attempt_def parse_tree_def
        object_blocks_def)
  with Document parse_objects_cases [of "object_blocks c" "[]" "[]"] show ?thesis
    by (auto simp: malformed_def list_all_iff)
qed (use assms in \<open>simp_all add: parse_pascalvoc_annoation_def ET_parse_def attempt_def
       malformed_def object_blocks_def\<close>)

text \<open>A well-formed file, one with a non-integer coordinate, and one that is not XML.\<close>

theorem read_fails_exactly_when_malformed_witness:
  "parse_pascalvoc_annoation annotated_disk ''/d/Annotations/a.xml''
     = Inr ([(10, 10, 50, 50)], [Some ''cat''])
   \<and> (\<exists>e. parse_pascalvoc_annoation annotated_disk ''/e/bad.xml'' = Inl e \<and> field_error e)
   \<and> parse_pascalvoc_annoation annotated_disk ''/e/junk.xml'' = Inl ParseError"
proof -
  have s1: "stat annotated_disk ''/d/Annotations/a.xml'' = Some (File (Document cat_annotation))"
    and s2: "stat annotated_disk ''/e/bad.xml'' = Some (File (Document bad_annotation))"
    and s3: "stat annotated_disk ''/e/junk.xml'' = Some (File Garbage)"
    by code_simp+
  have m: "\<not> malformed (Document cat_annotation)" "\<not> malformed (Document bad_annotation)"
      "malformed Garbage"
    by (simp_all add: malformed_def)
  have o1: "\<forall>obj \<in> set (object_blocks (Document cat_annotation)). well_formed_object obj"
    and v1: "map object_bbox (object_blocks (Document cat_annotation)) = [(10, 10, 50, 50)]"
    and l1: "map object_label (object_blocks (Document cat_annotation)) = [Some ''cat'']"
    and o2: "\<exists>obj \<in> set (object_blocks (Document bad_annotation)). \<not> well_formed_object obj"
    by code_simp+
  from read_fails_exactly_when_malformed [OF s1] read_fails_exactly_when_malformed [OF s2]
       read_fails_exactly_when_malformed [OF s3] m o1 v1 l1 o2
  show ?thesis
    by simp
qed

section \<open>The invariant of the session\<close>

lemma heap_ok_entryD:
  assumes "heap_ok B L cb cl n A" "A p = Some (a, b)"
  shows "length (B a) = length (L b)" and "a < n" and "b < n" and "(a = cb) = (b = cl)"
  using assms unfolding heap_ok_def by blast+

lemma heap_ok_entriesD:
  assumes "heap_ok B L cb cl n A" "A p = Some (a, b)" "A q = Some (c, d)"
  shows "(a = c) = (b = d)"
  using assms unfolding heap_ok_def by blast

lemma heap_ok_curD:
  assumes "heap_ok B L cb cl n A"
  shows "length (B cb) = length (L cl)" and "cb < n" and "cl < n"
  using assms unfolding heap_ok_def by blast+

lemma heap_ok_store:
  assumes ok: "heap_ok B L cb cl n A" and len: "length bs = length ls"
  shows "heap_ok (B(n := bs)) (L(Suc n := ls)) cb cl (Suc (Suc n)) (A(key \<mapsto> (n, Suc n)))"
proof -
  let ?A = "A(key \<mapsto> (n, Suc n))" and ?B = "B(n := bs)" and ?L = "L(Suc n := ls)"
  have entry: "a < n \<and> b < n \<and> A p = Some (a, b) \<or> a = n \<and> b = Suc n \<and> p = key"
    if "?A p = Some (a, b)" for p a b
    using that heap_ok_entryD(2,3) [OF ok, of p a b] by (auto split: if_splits)
  have "length (?B a) = length (?L b) \<and> a < Suc (Suc n) \<and> b < Suc (Suc n)
          \<and> (a = cb) = (b = cl)"
    if "?A p = Some (a, b)" for p a b
    using entry [OF that]
  proof
    assume "a < n \<and> b < n \<and> A p = Some (a, b)"
    then show ?thesis
      using heap_ok_entryD [OF ok, of p a b] by simp
  next
    assume "a = n \<and> b = Suc n \<and> p = key"
    then show ?thesis
      using heap_ok_curD [OF ok] len by simp
  qed
  moreover have "(a = c) = (b = d)"
    if "?A p = Some (a, b)" "?A q = Some (c, d)" for p q a b c d
    using entry [OF that(1)] entry [OF that(2)] heap_ok_entriesD [OF ok, of p a b q c d]
    by auto
  moreover have "length (?B cb) = length (?L cl)" "cb < Suc (Suc n)" "cl < Suc (Suc n)"
    using heap_ok_curD [OF ok] by simp_all
  ultimately show ?thesis
    unfolding heap_ok_def by blast
qed

lemma heap_ok_select:
  assumes ok: "heap_ok B L cb cl n A" and entry: "A p = Some (a, b)"
  shows "heap_ok B L a b n A"
  using heap_ok_entryD [OF ok entry] heap_ok_entriesD [OF ok _ entry] ok
  unfolding heap_ok_def by simp

lemma heap_ok_drop:
  assumes ok: "heap_ok B L cb cl n A"
  shows "heap_ok B L cb cl n (A(p := None))"
  using ok unfolding heap_ok_def by (simp split: if_splits)

lemma heap_ok_set_cur:
  assumes ok: "heap_ok B L cb cl n A" and len: "length bs = length ls"
  shows "heap_ok (B(cb := bs)) (L(cl := ls)) cb cl n A"
proof -
  have "length ((B(cb := bs)) a) = length ((L(cl := ls)) b)" if "A p = Some (a, b)" for p a b
    using heap_ok_entryD(1,4) [OF ok that] len by auto
  then show ?thesis
    using ok len unfolding heap_ok_def by simp
qed

lemma heap_ok_store_select:
  assumes ok: "heap_ok B L cb cl n A" and len: "length bs = length ls"
  shows "heap_ok (B(n := bs)) (L(Suc n := ls)) n (Suc n) (Suc (Suc n)) (A(key \<mapsto> (n, Suc n)))"
proof -
  have "(A(key \<mapsto> (n, Suc n))) key = Some (n, Suc n)"
    by simp
  from heap_ok_select [OF heap_ok_store [OF ok len] this] show ?thesis .
qed

lemma heap_inv_undo: "heap_inv s \<Longrightarrow> heap_inv (undo s)"
  by (simp add: heap_inv_def undo_def heap_ok_set_cur heap_ok_curD)

lemma heap_inv_mouse_callback: "heap_inv s \<Longrightarrow> heap_inv (mouse_callback ev x y s)"
  by (cases ev)
     (auto simp: heap_inv_def heap_ok_set_cur heap_ok_curD split: option.splits)

lemma index_ok_undo: "index_ok (undo s) = index_ok s"
  by (simp add: index_ok_def undo_def)

lemma index_ok_mouse_callback: "index_ok (mouse_callback ev x y s) = index_ok s"
  by (cases ev) (auto simp: index_ok_def split: option.splits)

declare save_when_changed.simps [simp del] remove_annotation_file_when_empty.simps [simp del]
  load_image.simps [simp del] next_image.simps [simp del] prev_image.simps [simp del]
  clear.simps [simp del] update.simps [simp del] exit_session.simps [simp del]

lemma save_when_changed_state:
  "save_when_changed (s, fs) = (r, (s', fs')) \<Longrightarrow> s' = s"
  by (auto simp: save_when_changed.simps split: if_splits sum.splits prod.splits)

lemma remove_annotation_file_state:
  "remove_annotation_file_when_empty (s, fs) = (r, (s', fs')) \<Longrightarrow> s' = s"
  by (auto simp: remove_annotation_file_when_empty.simps split: if_splits sum.splits prod.splits)

lemma load_image_fs: "load_image v (s, fs) = (r, (s', fs')) \<Longrightarrow> fs' = fs"
  by (auto simp: load_image.simps Let_def split: if_splits sum.splits option.splits)

lemma load_image_heap_inv:
  "heap_inv s \<Longrightarrow> load_image v (s, fs) = (r, (s', fs')) \<Longrightarrow> heap_inv s'"
  by (auto simp: load_image.simps Let_def heap_inv_def store_lists_def
      split: if_splits sum.splits option.splits
      intro: heap_ok_select intro!: heap_ok_store_select)

lemma load_image_index:
  assumes "load_image v (s, fs) = (r, (s', fs'))" "img_paths s \<noteq> []"
  shows "index s' = Some (v mod int (length (img_paths s)))"
    and "img_paths s' = img_paths s" and "folder s' = folder s" and "obj_label s' = obj_label s"
  using assms
  by (auto simp: load_image.simps Let_def store_lists_def
      split: if_splits sum.splits option.splits)

lemma index_setter_cases:
  assumes "index_setter v (s, fs) = (r, (s', fs'))"
  obtains (save_failed) e where
      "save_when_changed (s, fs) = (Inl e, (s, fs'))" "r = Inl e" "s' = s"
    | (remove_failed) e fs1 where
      "save_when_changed (s, fs) = (Inr (), (s, fs1))"
      "remove_annotation_file_when_empty (s, fs1) = (Inl e, (s, fs'))" "r = Inl e" "s' = s"
    | (loaded) fs1 where
      "save_when_changed (s, fs) = (Inr (), (s, fs1))"
      "remove_annotation_file_when_empty (s, fs1) = (Inr (), (s, fs'))"
      "load_image v (s, fs') = (r, (s', fs'))"
proof -
  obtain r1 s1 fs1 where save: "save_when_changed (s, fs) = (r1, (s1, fs1))"
    by (metis prod.exhaust)
  then have s1: "s1 = s"
    by (rule save_when_changed_state)
  show thesis
  proof (cases r1)
    case (Inl e)
    with assms save s1 show thesis
      by (intro save_failed [of e]) (auto simp: index_setter_def andthen_def)
  next
    case (Inr u)
    obtain r2 s2 fs2 where remove: "remove_annotation_file_when_empty (s, fs1) = (r2, (s2, fs2))"
      by (metis prod.exhaust)
    then have s2: "s2 = s"
      by (rule remove_annotation_file_state)
    show thesis
    proof (cases r2)
      case (Inl e)
      with assms save s1 remove s2 \<open>r1 = Inr u\<close> show thesis
        by (intro remove_failed [of fs1 e]) (auto simp: index_setter_def andthen_def)
    next
      case r2: (Inr u2)
      with assms save s1 remove s2 \<open>r1 = Inr u\<close>
      have load: "load_image v (s, fs2) = (r, (s', fs'))"
        by (auto simp: index_setter_def andthen_def)
      then have "fs' = fs2"
        by (rule load_image_fs)
      with load save s1 remove s2 r2 \<open>r1 = Inr u\<close> show thesis
        by (intro loaded [of fs1]) auto
    qed
  qed
qed

lemma index_ok_paths: "index_ok s \<Longrightarrow> img_paths s \<noteq> []"
  by (cases "index s") (auto simp: index_ok_def)

lemma load_image_session_inv:
  assumes "load_image v (s, fs) = (r, (s', fs'))" "heap_inv s" "img_paths s \<noteq> []"
  shows "session_inv s'"
  using load_image_heap_inv [OF assms(2,1)] load_image_index(1,2) [OF assms(1,3)] assms(3)
  by (simp add: session_inv_def index_ok_def)

lemma index_setter_session_inv:
  assumes "index_setter v (s, fs) = (r, (s', fs'))" "session_inv s"
  shows "session_inv s'"
  using assms(1)
proof (cases rule: index_setter_cases)
  case (loaded fs1)
  from assms(2) have "heap_inv s" "img_paths s \<noteq> []"
    by (auto simp: session_inv_def dest: index_ok_paths)
  with loaded(3) show ?thesis
    by (intro load_image_session_inv)
qed (use assms(2) in simp_all)

lemma session_inv_fields:
  assumes "bbox_lists s' = bbox_lists s" "label_lists s' = label_lists s"
    "cur_bboxes s' = cur_bboxes s" "cur_labels s' = cur_labels s"
    "next_addr s' = next_addr s" "annotations s' = annotations s"
    "index s' = index s" "img_paths s' = img_paths s"
  shows "session_inv s' = session_inv s"
  using assms by (simp add: session_inv_def heap_inv_def index_ok_def)

lemma next_image_session_inv:
  "next_image (s, fs) = (r, (s', fs')) \<Longrightarrow> session_inv s \<Longrightarrow> session_inv s'"
  by (auto simp: next_image.simps index_getter_def split: option.splits
      dest: index_setter_session_inv)

lemma prev_image_session_inv:
  "prev_image (s, fs) = (r, (s', fs')) \<Longrightarrow> session_inv s \<Longrightarrow> session_inv s'"
  by (auto simp: prev_image.simps index_getter_def split: option.splits
      dest: index_setter_session_inv)

lemma exit_session_inv:
  "exit_session (s, fs) = (r, (s', fs')) \<Longrightarrow> session_inv s \<Longrightarrow> session_inv s'"
  by (auto simp: exit_session.simps index_getter_def split: option.splits if_splits
      dest: index_setter_session_inv)

lemma clear_session_inv:
  assumes "clear (s, fs) = (r, (s', fs'))" "session_inv s"
  shows "session_inv s'"
proof -
  let ?s1 = "s\<lparr>cur_img := None, changed := True\<rparr>"
  have s1: "session_inv ?s1"
    using assms(2) by (subst session_inv_fields [of _ s]) simp_all
  show ?thesis
  proof (cases "cur_img_path ?s1")
    case (Inl e)
    with assms(1) s1 show ?thesis by (simp add: clear.simps Let_def)
  next
    case (Inr p)
    let ?s2 = "if annotations ?s1 p \<noteq> None
               then ?s1\<lparr>annotations := (annotations ?s1)(p := None)\<rparr> else ?s1"
    from s1 have s2: "session_inv ?s2"
      by (auto simp: session_inv_def heap_inv_def index_ok_def heap_ok_drop)
    show ?thesis
    proof (cases "index_getter ?s2")
      case (Inl e)
      with assms(1) Inr s2 show ?thesis by (auto simp: clear.simps Let_def split: if_splits)
    next
      case (Inr i)
      with assms(1) \<open>cur_img_path ?s1 = Inr p\<close>
      have "index_setter i (?s2, fs) = (r, (s', fs'))"
        by (auto simp: clear.simps Let_def split: if_splits)
      from index_setter_session_inv [OF this s2] show ?thesis .
    qed
  qed
qed

lemma update_session_inv:
  assumes "update key (s, fs) = (r, (s', fs'))" "session_inv s"
  shows "session_inv s'"
  using assms
  by (auto simp: update.simps andthen_def succeed_def session_inv_def heap_inv_undo index_ok_undo
      split: if_splits prod.splits sum.splits
      dest: next_image_session_inv prev_image_session_inv clear_session_inv)

lemma handle_session_inv:
  assumes "handle ev (s, fs) = (r, (s', fs'))" "session_inv s"
  shows "session_inv s'"
proof (cases ev)
  case (Mouse m x y)
  with assms show ?thesis
    by (auto simp: session_inv_def heap_inv_mouse_callback index_ok_mouse_callback)
next
  case (Key k)
  with assms show ?thesis
    by (auto dest: update_session_inv)
qed

lemma new_annotator_session: "heap_inv (new_annotator dir label paths)"
  by (simp add: heap_inv_def new_annotator_def heap_ok_def)

lemma parse_objects_lengths:
  assumes "parse_objects objs bs ls = Inr (bs', ls')" "length bs = length ls"
  shows "length bs' = length ls'"
  using parse_objects_cases [of objs bs ls] assms
  by (cases "list_all well_formed_object objs") auto

lemma parse_pascalvoc_annoation_lengths:
  assumes "parse_pascalvoc_annoation fs p = Inr (bs, ls)"
  shows "length bs = length ls"
proof (cases "ET_parse fs p")
  case (Inl e)
  with assms show ?thesis
    by (simp add: parse_pascalvoc_annoation_def attempt_def)
next
  case (Inr root)
  with assms have "parse_objects (findall ''object'' root) [] [] = Inr (bs, ls)"
    by (simp add: parse_pascalvoc_annoation_def attempt_def parse_tree_def)
  then show ?thesis
    by (rule parse_objects_lengths) simp
qed

lemma store_lists_heap_inv:
  "heap_inv s \<Longrightarrow> length bs = length ls \<Longrightarrow> heap_inv (store_lists key bs ls s)"
  by (simp add: heap_inv_def store_lists_def heap_ok_store)

lemma load_files_session:
  assumes "load_files fs names s = Inr s'" "heap_inv s"
  shows "heap_inv s' \<and> img_paths s' = img_paths s \<and> index s' = index s
         \<and> cur_img s' = cur_img s \<and> folder s' = folder s \<and> obj_label s' = obj_label s"
  using assms
proof (induction names arbitrary: s)
  case Nil
  then show ?case by simp
next
  case (Cons filename names)
  let ?key = "os_path_join (folder s)
                (os_path_basename (fst (os_path_splitext filename)) @ PASCAL_VOC_IMAGE_EXTENSION)"
  from Cons.prems(1) obtain bs ls where
    parsed: "parse_pascalvoc_annoation fs (os_path_join (annotation_dir s) filename) = Inr (bs, ls)"
    and rest: "load_files fs names (store_lists ?key bs ls s) = Inr s'"
    by (auto simp: Let_def attempt_def split: sum.splits)
  from parsed have "length bs = length ls"
    by (rule parse_pascalvoc_annoation_lengths)
  with Cons.prems(2) have "heap_inv (store_lists ?key bs ls s)"
    by (intro store_lists_heap_inv)
  from Cons.IH [OF rest this] show ?case
    by (simp add: store_lists_def)
qed

lemma load_saved_annotations_session:
  assumes "load_saved_annotations fs s = Inr s'" "heap_inv s"
  shows "heap_inv s' \<and> img_paths s' = img_paths s \<and> index s' = index s
         \<and> cur_img s' = cur_img s \<and> folder s' = folder s \<and> obj_label s' = obj_label s"
  using assms
  by (auto simp: load_saved_annotations_def attempt_def split: if_splits sum.splits
      dest: load_files_session)

lemma index_setter_fresh:
  assumes "index s = None" "cur_img s = None"
  shows "index_setter v (s, fs) = load_image v (s, fs)"
  using assms
  by (simp add: index_setter_def andthen_def save_when_changed.simps
      remove_annotation_file_when_empty.simps)

lemma init_success:
  assumes "init dir label fs = Inr (s, fs')"
  obtains names s0 where
    "os_path_isdir fs dir" "os_listdir fs dir = Inr names"
    "img_paths s = map (os_path_join dir) (filter (sublist PASCAL_VOC_IMAGE_EXTENSION) names)"
    "img_paths s \<noteq> []"
    "load_saved_annotations fs (new_annotator dir label (img_paths s)) = Inr s0"
    "load_image 0 (s0, fs) = (Inr (), (s, fs'))"
proof -
  from assms have isdir: "os_path_isdir fs dir"
    by (auto simp: init_def split: if_splits)
  with assms obtain names where names: "os_listdir fs dir = Inr names"
    by (auto simp: init_def attempt_def split: sum.splits)
  let ?paths = "map (os_path_join dir) (filter (sublist PASCAL_VOC_IMAGE_EXTENSION) names)"
  from assms isdir names have paths: "?paths \<noteq> []"
    by (auto simp: init_def attempt_def Let_def split: if_splits)
  with assms isdir names obtain s0 where
    s0: "load_saved_annotations fs (new_annotator dir label ?paths) = Inr s0"
    and setter: "index_setter 0 (s0, fs) = (Inr (), (s, fs'))"
    by (auto simp: init_def attempt_def Let_def split: if_splits sum.splits prod.splits)
  from load_saved_annotations_session [OF s0 new_annotator_session]
  have fresh: "index s0 = None" "cur_img s0 = None" "img_paths s0 = ?paths"
    by (simp_all add: new_annotator_def)
  with setter have load: "load_image 0 (s0, fs) = (Inr (), (s, fs'))"
    by (simp add: index_setter_fresh)
  from load_image_index(2) [OF load] fresh paths have "img_paths s = ?paths"
    by simp
  with isdir names paths s0 load show thesis
    by (intro that [of names s0]) simp_all
qed

lemma init_session_inv:
  assumes "init dir label fs = Inr (s, fs')"
  shows "session_inv s" and "fs' = fs"
proof -
  from assms obtain s0 where
    paths: "img_paths s \<noteq> []"
    and s0: "load_saved_annotations fs (new_annotator dir label (img_paths s)) = Inr s0"
    and load: "load_image 0 (s0, fs) = (Inr (), (s, fs'))"
    by (rule init_success)
  from load_saved_annotations_session [OF s0 new_annotator_session]
  have "heap_inv s0" "img_paths s0 = img_paths s"
    by (simp_all add: new_annotator_def)
  with load paths show "session_inv s"
    by (intro load_image_session_inv [OF load]) simp_all
  from load show "fs' = fs"
    by (rule load_image_fs)
qed

lemma reachable_session_inv: "reachable w \<Longrightarrow> session_inv (fst w)"
proof (induction rule: reachable.induct)
  case (start dir label fs w)
  obtain s fs' where "w = (s, fs')"
    by (rule prod.exhaust)
  with start show ?case
    by (auto dest: init_session_inv)
next
  case (step w ev r w')
  obtain s fs s' fs' where "w = (s, fs)" "w' = (s', fs')"
    by (metis prod.exhaust)
  with step show ?case
    by (auto dest: handle_session_inv)
next
  case (leave w r w')
  obtain s fs s' fs' where "w = (s, fs)" "w' = (s', fs')"
    by (metis prod.exhaust)
  with leave show ?case
    by (auto dest: exit_session_inv)
qed

lemma reachable_run_events:
  "reachable w \<Longrightarrow> run_events evs w = (r, w') \<Longrightarrow> reachable w'"
proof (induction evs arbitrary: w)
  case Nil
  then show ?case by simp
next
  case (Cons ev evs)
  obtain r1 w1 where h: "handle ev w = (r1, w1)"
    by (rule prod.exhaust)
  with Cons.prems(1) have "reachable w1"
    by (rule reachable.step)
  with Cons.IH [of w1] Cons.prems(2) h show ?case
    by (auto split: sum.splits if_splits)
qed

lemma reachable_fresh_session: "reachable fresh_session"
proof -
  have "case init ''/d'' ''cat'' example_disk of Inl _ \<Rightarrow> False | Inr _ \<Rightarrow> True"
    by code_simp
  then obtain w where "init ''/d'' ''cat'' example_disk = Inr w"
    by (auto split: sum.splits)
  then show ?thesis
    by (auto simp: fresh_session_def intro: reachable.start)
qed

lemma reachable_drawn_session: "reachable drawn_session"
  unfolding drawn_session_def
  by (rule reachable_run_events [OF reachable_fresh_session]) (rule surjective_pairing)

lemma reachable_drawing_session: "reachable drawing_session"
  unfolding drawing_session_def
  by (rule reachable_run_events [OF reachable_fresh_session]) (rule surjective_pairing)

lemma append_objects_error: "append_objects root pairs = Inl e \<Longrightarrow> e = ValueError"
proof (induction pairs arbitrary: root)
  case Nil
  then show ?case by simp
next
  case (Cons a pairs)
  obtain n b where "a = (n, b)" by (rule prod.exhaust)
  with Cons show ?case
    by (auto simp: generate_object_annotation_eq attempt_def split: if_splits)
qed

lemma annotation_tree_error: "annotation_tree shape obj_names bboxes = Inl e \<Longrightarrow> e = ValueError"
  by (cases shape) (auto simp: annotation_tree_def attempt_def dest: append_objects_error)

lemma write_file_error:
  "write_file p data fs = (Inl e, fs') \<Longrightarrow>
     e \<in> {FileNotFoundError, IsADirectoryError, NotADirectoryError}"
  by (auto simp: write_file_cases split: if_splits option.splits)

lemma os_mkdir_error:
  "os_mkdir p fs = (Inl e, fs') \<Longrightarrow>
     e \<in> {FileNotFoundError, FileExistsError, NotADirectoryError}"
  by (auto simp: os_mkdir_def parent_error_def Let_def split: if_splits option.splits node.splits)

lemma generate_from_image_error:
  assumes "generate_pascalvoc_annotation_from_image img obj_names bboxes p True fs = (Inl e, fs')"
  shows "e \<in> {ValueError, FileNotFoundError, IsADirectoryError, NotADirectoryError}"
  using assms
  by (cases "annotation_tree img obj_names bboxes")
     (auto simp: generate_pascalvoc_annotation_from_image_def andthen_def lift_def
       write_annotation_def dest: annotation_tree_error write_file_error)

lemma generate_from_image_file_error:
  assumes "generate_pascvalvoc_annotation_from_image_file p obj_names bboxes dir True fs = (Inl e, fs')"
  shows "e \<noteq> AssertionError Sizes_Mismatched"
  using assms
  by (auto simp: generate_pascvalvoc_annotation_from_image_file_def Let_def andthen_def succeed_def
      split: option.splits if_splits prod.splits sum.splits
      dest: generate_from_image_error os_mkdir_error)

text \<open>
  C9: in every reachable state of the session the box list and the label list of the
  current image have the same length, and so have those of every image in the
  dictionary.  So the assertion on the sizes, which guards the save, never fails, in
  the save or in any assignment to \<^verbatim>\<open>index\<close>.
\<close>

theorem boxes_and_labels_aligned:
  assumes "reachable (s, fs)"
  shows "length (bbox_lists s (cur_bboxes s)) = length (label_lists s (cur_labels s))
       \<and> (\<forall>p a b. annotations s p = Some (a, b) \<longrightarrow>
             length (bbox_lists s a) = length (label_lists s b))
       \<and> fst (save_when_changed (s, fs)) \<noteq> Inl (AssertionError Sizes_Mismatched)
       \<and> fst (index_setter v (s, fs)) \<noteq> Inl (AssertionError Sizes_Mismatched)"
proof -
  from reachable_session_inv [OF assms]
  have ok: "heap_ok (bbox_lists s) (label_lists s) (cur_bboxes s) (cur_labels s) (next_addr s)
              (annotations s)"
    by (simp add: session_inv_def heap_inv_def)
  have len: "length (bbox_lists s (cur_bboxes s)) = length (label_lists s (cur_labels s))"
    by (rule heap_ok_curD(1) [OF ok])
  then have save: "fst (save_when_changed (s, fs)) \<noteq> Inl (AssertionError Sizes_Mismatched)"
    by (auto simp: save_when_changed.simps cur_img_path_def Let_def
        split: option.splits if_splits sum.splits prod.splits
        dest: generate_from_image_file_error)
  obtain r s' fs' where run: "index_setter v (s, fs) = (r, (s', fs'))"
    by (metis prod.exhaust)
  then have "r \<noteq> Inl (AssertionError Sizes_Mismatched)"
  proof (cases rule: index_setter_cases)
    case (save_failed e)
    with save show ?thesis by auto
  next
    case (remove_failed e fs1)
    then show ?thesis
      by (auto simp: remove_annotation_file_when_empty.simps cur_img_path_def Let_def os_remove_def
          split: option.splits if_splits sum.splits prod.splits node.splits)
  next
    case (loaded fs1)
    then show ?thesis
      by (auto simp: load_image.simps cur_img_path_def Let_def
          split: option.splits if_splits sum.splits prod.splits)
  qed
  with run len save heap_ok_entryD(1) [OF ok] show ?thesis
    by auto
qed

text \<open>After one box was drawn there is one box and so one label.\<close>

theorem boxes_and_labels_aligned_witness:
  "bbox_lists (fst drawn_session) (cur_bboxes (fst drawn_session)) = [(10, 10, 50, 50)]
   \<and> length (label_lists (fst drawn_session) (cur_labels (fst drawn_session))) = 1"
proof -
  have r: "reachable (fst drawn_session, snd drawn_session)"
    using reachable_drawn_session by simp
  have "bbox_lists (fst drawn_session) (cur_bboxes (fst drawn_session)) = [(10, 10, 50, 50)]"
    by code_simp
  with boxes_and_labels_aligned [OF r] show ?thesis
    by simp
qed

section \<open>Undo\<close>

text \<open>
  C5: in every reachable state, Undo changes nothing while a box is being drawn, and
  nothing when the current image has no committed box; otherwise it removes the last
  box and the last label of the current image, sets the changed flag and leaves
  everything else as it was.  The undo key runs it without an error and without touching
  the file system.
\<close>

theorem undo_cases:
  assumes "reachable (s, fs)"
  shows "(bbbox_in_progress s \<noteq> None \<longrightarrow> undo s = s)
       \<and> (bbox_lists s (cur_bboxes s) = [] \<longrightarrow> undo s = s)
       \<and> (bbbox_in_progress s = None \<and> bbox_lists s (cur_bboxes s) \<noteq> [] \<longrightarrow>
            undo s = s\<lparr>changed := True,
                       bbox_lists := (bbox_lists s)
                         (cur_bboxes s := butlast (bbox_lists s (cur_bboxes s))),
                       label_lists := (label_lists s)
                         (cur_labels s := butlast (label_lists s (cur_labels s)))\<rparr>
            \<and> bbox_lists (undo s) (cur_bboxes (undo s)) = butlast (bbox_lists s (cur_bboxes s))
            \<and> label_lists (undo s) (cur_labels (undo s)) = butlast (label_lists s (cur_labels s))
            \<and> changed (undo s))
       \<and> (cur_img s \<noteq> None \<longrightarrow> update UNDO_KEY (s, fs) = (Inr False, (undo s, fs)))"
proof -
  from reachable_session_inv [OF assms]
  have "length (bbox_lists s (cur_bboxes s)) = length (label_lists s (cur_labels s))"
    by (auto simp: session_inv_def heap_inv_def dest: heap_ok_curD)
  then have "label_lists s (cur_labels s) \<noteq> []" if "bbox_lists s (cur_bboxes s) \<noteq> []"
    using that by auto
  then show ?thesis
    by (auto simp: undo_def update.simps UNDO_KEY_def QUIT_KEY_def NEXT_KEY_def PREV_KEY_def
        CLEAR_KEY_def)
qed

text \<open>Undo after a box was drawn, while one is being drawn, and on a fresh session.\<close>

theorem undo_cases_witness:
  "bbox_lists (undo (fst drawn_session)) (cur_bboxes (undo (fst drawn_session))) = []
   \<and> label_lists (undo (fst drawn_session)) (cur_labels (undo (fst drawn_session))) = []
   \<and> changed (undo (fst drawn_session))
   \<and> undo (fst drawing_session) = fst drawing_session
   \<and> undo (fst fresh_session) = fst fresh_session
   \<and> update UNDO_KEY fresh_session = (Inr False, fresh_session)"
proof -
  have r: "reachable (fst drawn_session, snd drawn_session)"
    "reachable (fst drawing_session, snd drawing_session)"
    "reachable (fst fresh_session, snd fresh_session)"
    using reachable_drawn_session reachable_drawing_session reachable_fresh_session by simp_all
  have "bbbox_in_progress (fst drawn_session) = None"
    "bbox_lists (fst drawn_session) (cur_bboxes (fst drawn_session)) = [(10, 10, 50, 50)]"
    "label_lists (fst drawn_session) (cur_labels (fst drawn_session)) = [Some ''cat'']"
    "bbbox_in_progress (fst drawing_session) \<noteq> None"
    "bbox_lists (fst fresh_session) (cur_bboxes (fst fresh_session)) = []"
    "cur_img (fst fresh_session) \<noteq> None"
    by code_simp+
  with undo_cases [OF r(1)] undo_cases [OF r(2)] undo_cases [OF r(3)] show ?thesis
    by (simp add: prod_eq_iff)
qed

section \<open>Construction of the session\<close>

lemma annotation_dir_store_lists [simp]:
  "annotation_dir (store_lists key bs ls s) = annotation_dir s"
  by (simp add: annotation_dir_def store_lists_def)

lemma load_files_succeeds:
  "succeeds (load_files fs names s)
     = list_all (\<lambda>filename. parses fs (os_path_join (annotation_dir s) filename)) names"
proof (induction names arbitrary: s)
  case Nil
  then show ?case by (simp add: succeeds_def)
next
  case (Cons filename names)
  show ?case
  proof (cases "parse_pascalvoc_annoation fs (os_path_join (annotation_dir s) filename)")
    case (Inl e)
    then show ?thesis
      by (simp add: succeeds_def parses_def attempt_def)
  next
    case (Inr r)
    obtain bs ls where "r = (bs, ls)" by (rule prod.exhaust)
    with Inr Cons.IH show ?thesis
      by (simp add: parses_def attempt_def)
  qed
qed

lemma os_listdir_of_dir: "os_path_isdir fs p \<Longrightarrow> succeeds (os_listdir fs p)"
  by (simp add: os_path_isdir_def os_listdir_def succeeds_def)

lemma load_saved_annotations_succeeds:
  "succeeds (load_saved_annotations fs (new_annotator dir label paths))
     = saved_annotations_parse fs dir"
proof -
  let ?s = "new_annotator dir label paths"
  have adir: "annotation_dir ?s = os_path_join dir ANNOTATION_DEFAULT_DIR"
    by (simp add: annotation_dir_def new_annotator_def)
  show ?thesis
  proof (cases "os_path_isdir fs (annotation_dir ?s)")
    case False
    then show ?thesis
      by (simp add: load_saved_annotations_def saved_annotations_parse_def adir succeeds_def)
  next
    case True
    from os_listdir_of_dir [OF True] obtain names where "os_listdir fs (annotation_dir ?s) = Inr names"
      by (cases "os_listdir fs (annotation_dir ?s)") (simp_all add: succeeds_def)
    with True show ?thesis
      using load_files_succeeds [of fs names ?s]
      by (simp add: load_saved_annotations_def saved_annotations_parse_def adir attempt_def)
  qed
qed

lemma cur_img_path_in_range:
  assumes "index s = Some i" "0 \<le> i" "i < int (length (img_paths s))"
  shows "cur_img_path s = Inr (img_paths s ! nat i)"
  using assms by (simp add: cur_img_path_def)

lemma load_image_result:
  assumes "img_paths s \<noteq> []"
  shows "fst (load_image v (s, fs)) =
           (if imread fs (img_paths s ! nat (v mod int (length (img_paths s)))) = None
            then Inl (AssertionError Could_Not_Read_Image) else Inr ())"
proof -
  let ?i = "v mod int (length (img_paths s))"
  let ?s1 = "s\<lparr>index := Some ?i\<rparr>"
  from assms have "0 \<le> ?i" "?i < int (length (img_paths s))"
    by simp_all
  then have "cur_img_path ?s1 = Inr (img_paths s ! nat ?i)"
    by (intro cur_img_path_in_range [THEN trans]) simp_all
  with assms show ?thesis
    by (auto simp: load_image.simps Let_def store_lists_def split: option.splits)
qed

text \<open>
  C8, amended: the construction fails with the not-a-directory assertion whenever the
  folder path is not an existing directory, and with the no-images assertion whenever
  the folder is a directory without an entry whose name contains \<^verbatim>\<open>.jpg\<close>.  On any other
  input it succeeds exactly when every entry of the annotation directory, if there is
  one, can be read as an annotation and the first image can be decoded; with readable
  annotations and an unreadable first image it fails with the could-not-read assertion.
\<close>

theorem init_cases:
  "(\<not> os_path_isdir fs dir \<longrightarrow> init dir label fs = Inl (AssertionError Not_A_Directory))
   \<and> (os_path_isdir fs dir \<and> image_names fs dir = [] \<longrightarrow>
        init dir label fs = Inl (AssertionError No_JPEG_Images_Found))
   \<and> (os_path_isdir fs dir \<and> image_names fs dir \<noteq> [] \<longrightarrow>
        succeeds (init dir label fs)
          = (saved_annotations_parse fs dir
             \<and> imread fs (os_path_join dir (hd (image_names fs dir))) \<noteq> None))
   \<and> (os_path_isdir fs dir \<and> image_names fs dir \<noteq> [] \<and> saved_annotations_parse fs dir
        \<and> imread fs (os_path_join dir (hd (image_names fs dir))) = None \<longrightarrow>
        init dir label fs = Inl (AssertionError Could_Not_Read_Image))"
proof (cases "os_path_isdir fs dir")
  case False
  then show ?thesis
    by (simp add: init_def)
next
  case isdir: True
  from os_listdir_of_dir [OF isdir] obtain names where names: "os_listdir fs dir = Inr names"
    by (cases "os_listdir fs dir") (simp_all add: succeeds_def)
  let ?names = "filter (sublist PASCAL_VOC_IMAGE_EXTENSION) names"
  let ?paths = "map (os_path_join dir) ?names"
  from names have image_names: "image_names fs dir = ?names"
    by (simp add: image_names_def)
  show ?thesis
  proof (cases "?names = []")
    case True
    with isdir names image_names show ?thesis
      by (simp add: init_def attempt_def)
  next
    case images: False
    let ?s = "new_annotator dir label ?paths"
    have init: "init dir label fs =
                  attempt (load_saved_annotations fs ?s)
                    (\<lambda>s. case index_setter 0 (s, fs) of (Inl e, _) \<Rightarrow> Inl e | (Inr _, w) \<Rightarrow> Inr w)"
      using isdir names images by (simp add: init_def attempt_def Let_def)
    show ?thesis
    proof (cases "load_saved_annotations fs ?s")
      case (Inl e)
      with load_saved_annotations_succeeds [of fs dir label ?paths]
      have "\<not> saved_annotations_parse fs dir"
        by (simp add: succeeds_def)
      with isdir image_names images init Inl show ?thesis
        by (simp add: attempt_def succeeds_def)
    next
      case (Inr s0)
      with load_saved_annotations_succeeds [of fs dir label ?paths]
      have parse: "saved_annotations_parse fs dir"
        by (simp add: succeeds_def)
      from load_saved_annotations_session [OF Inr new_annotator_session]
      have s0: "index s0 = None" "cur_img s0 = None" "img_paths s0 = ?paths"
        by (simp_all add: new_annotator_def)
      from images have first: "?paths ! 0 = os_path_join dir (hd ?names)"
        by (cases ?names) simp_all
      from s0 images have "fst (index_setter 0 (s0, fs)) =
          (if imread fs (os_path_join dir (hd ?names)) = None
           then Inl (AssertionError Could_Not_Read_Image) else Inr ())"
        using load_image_result [of s0 0 fs] first by (simp add: index_setter_fresh)
      with isdir image_names images init Inr parse show ?thesis
        by (auto simp: attempt_def succeeds_def split: prod.splits sum.splits)
    qed
  qed
qed

text \<open>The four cases on the example folders.\<close>

theorem init_cases_witness:
  "succeeds (init ''/d'' ''cat'' example_disk)
   \<and> error_of (init ''/nowhere'' ''cat'' example_disk) = Some (AssertionError Not_A_Directory)
   \<and> error_of (init ''/e'' ''cat'' annotated_disk) = Some (AssertionError No_JPEG_Images_Found)
   \<and> error_of (init ''/d'' ''cat'' unreadable_disk) = Some (AssertionError Could_Not_Read_Image)"
proof -
  have "\<not> os_path_isdir example_disk ''/nowhere''"
    "os_path_isdir annotated_disk ''/e'' \<and> image_names annotated_disk ''/e'' = []"
    "os_path_isdir example_disk ''/d'' \<and> image_names example_disk ''/d'' \<noteq> []"
    "saved_annotations_parse example_disk ''/d''
       \<and> imread example_disk (os_path_join ''/d'' (hd (image_names example_disk ''/d''))) \<noteq> None"
    "os_path_isdir unreadable_disk ''/d'' \<and> image_names unreadable_disk ''/d'' \<noteq> []
       \<and> saved_annotations_parse unreadable_disk ''/d''
       \<and> imread unreadable_disk (os_path_join ''/d'' (hd (image_names unreadable_disk ''/d''))) = None"
    by code_simp+
  with init_cases [of example_disk "''/nowhere''" "''cat''"]
       init_cases [of annotated_disk "''/e''" "''cat''"]
       init_cases [of example_disk "''/d''" "''cat''"]
       init_cases [of unreadable_disk "''/d''" "''cat''"]
  show ?thesis
    by (simp add: error_of_def)
qed

text \<open>
  The claim as stated fails: the folder is a directory and holds a file with the image
  extension, and the construction does not succeed.
\<close>

theorem unreadable_first_image_fails:
  "os_path_isdir unreadable_disk ''/d''
   \<and> image_names unreadable_disk ''/d'' = [''a.jpg'']
   \<and> error_of (init ''/d'' ''cat'' unreadable_disk) = Some (AssertionError Could_Not_Read_Image)"
  by code_simp

section \<open>Navigation\<close>

lemma index_setter_index:
  assumes "index_setter v (s, fs) = (Inr (), (s', fs'))"
  shows "index s' = Some (v mod int (length (img_paths s)))" and "img_paths s' = img_paths s"
    and "img_paths s \<noteq> []"
proof -
  from assms have load: "load_image v (s, fs') = (Inr (), (s', fs'))"
    by (cases rule: index_setter_cases) auto
  then show paths: "img_paths s \<noteq> []"
    by (auto simp: load_image.simps)
  from load_image_index(1,2) [OF load paths]
  show "index s' = Some (v mod int (length (img_paths s)))" "img_paths s' = img_paths s"
    by simp_all
qed

lemma next_image_index:
  assumes "next_image (s, fs) = (Inr (), (s', fs'))" "index s = Some i"
  shows "index s' = Some ((i + 1) mod int (length (img_paths s)))" and "img_paths s' = img_paths s"
  using assms by (auto simp: next_image.simps index_getter_def dest: index_setter_index)

lemma prev_image_index:
  assumes "prev_image (s, fs) = (Inr (), (s', fs'))" "index s = Some i"
  shows "index s' = Some ((i - 1) mod int (length (img_paths s)))" and "img_paths s' = img_paths s"
  using assms by (auto simp: prev_image.simps index_getter_def dest: index_setter_index)

lemma repeat_next_image_index:
  assumes "repeat k next_image (s, fs) = (Inr (), (s', fs'))" "index s = Some i"
    "0 < k \<or> (0 \<le> i \<and> i < int (length (img_paths s)))"
  shows "index s' = Some ((i + int k) mod int (length (img_paths s)))
         \<and> img_paths s' = img_paths s"
  using assms
proof (induction k arbitrary: s fs i)
  case 0
  then show ?case by simp
next
  case (Suc k)
  from Suc.prems(1) obtain s1 fs1 where
    first: "next_image (s, fs) = (Inr (), (s1, fs1))"
    and rest: "repeat k next_image (s1, fs1) = (Inr (), (s', fs'))"
    by (auto split: prod.splits sum.splits)
  let ?n = "int (length (img_paths s))"
  from next_image_index [OF first Suc.prems(2)]
  have s1: "index s1 = Some ((i + 1) mod ?n)" "img_paths s1 = img_paths s"
    by simp_all
  from first Suc.prems(2) have "img_paths s \<noteq> []"
    by (auto simp: next_image.simps index_getter_def dest: index_setter_index(3))
  then have "0 \<le> (i + 1) mod ?n \<and> (i + 1) mod ?n < ?n"
    by simp
  with Suc.IH [OF rest s1(1)] s1(2)
  have "index s' = Some (((i + 1) mod ?n + int k) mod ?n) \<and> img_paths s' = img_paths s"
    by simp
  moreover have "((i + 1) mod ?n + int k) mod ?n = (i + int (Suc k)) mod ?n"
    by (simp add: mod_add_left_eq add.assoc)
  ultimately show ?case
    by simp
qed

text \<open>
  What the assignment to \<^verbatim>\<open>index\<close> does to the index when it returns: from index 0 in
  a session over N images, whenever N invocations of Next in a row all return without
  raising, the index is 0 again; whenever Previous returns without raising, the index is
  N - 1; and a Next that returns leaves the index at 1 modulo N.
\<close>

lemma index_wraps:
  assumes "index s = Some 0"
  shows "(repeat (length (img_paths s)) next_image (s, fs) = (Inr (), (s', fs')) \<longrightarrow>
            index s' = Some 0)
       \<and> (prev_image (s, fs) = (Inr (), (s', fs')) \<longrightarrow>
            index s' = Some (int (length (img_paths s)) - 1))
       \<and> (next_image (s, fs) = (Inr (), (s', fs')) \<longrightarrow>
            index s' = Some (1 mod int (length (img_paths s))))"
proof (intro conjI impI)
  assume run: "repeat (length (img_paths s)) next_image (s, fs) = (Inr (), (s', fs'))"
  show "index s' = Some 0"
  proof (cases "img_paths s = []")
    case True
    with run assms show ?thesis by simp
  next
    case False
    with repeat_next_image_index [OF run assms] show ?thesis by simp
  qed
next
  assume run: "prev_image (s, fs) = (Inr (), (s', fs'))"
  then have "img_paths s \<noteq> []"
    using assms by (auto simp: prev_image.simps index_getter_def dest: index_setter_index(3))
  then have "(- 1) mod int (length (img_paths s)) = int (length (img_paths s)) - 1"
    by (cases "img_paths s") (simp_all add: zmod_minus1)
  with prev_image_index(1) [OF run assms] show "index s' = Some (int (length (img_paths s)) - 1)"
    by simp
next
  assume "next_image (s, fs) = (Inr (), (s', fs'))"
  from next_image_index(1) [OF this assms] show "index s' = Some (1 mod int (length (img_paths s)))"
    by simp
qed

text \<open>Two images, both annotated: Next twice, and Previous.\<close>

lemma index_wraps_example:
  "index (fst fully_annotated_session) = Some 0
   \<and> length (img_paths (fst fully_annotated_session)) = 2
   \<and> fst (repeat 2 next_image fully_annotated_session) = Inr ()
   \<and> index (fst (snd (repeat 2 next_image fully_annotated_session))) = Some 0
   \<and> fst (prev_image fully_annotated_session) = Inr ()
   \<and> index (fst (snd (prev_image fully_annotated_session))) = Some 1"
proof -
  let ?s = "fst fully_annotated_session" and ?fs = "snd fully_annotated_session"
  have i: "index ?s = Some 0" and n: "length (img_paths ?s) = 2"
    and r: "fst (repeat 2 next_image fully_annotated_session) = Inr ()"
    and p: "fst (prev_image fully_annotated_session) = Inr ()"
    by code_simp+
  from r n have "repeat (length (img_paths ?s)) next_image (?s, ?fs)
      = (Inr (), (fst (snd (repeat 2 next_image fully_annotated_session)),
                  snd (snd (repeat 2 next_image fully_annotated_session))))"
    by (simp add: prod_eq_iff)
  with index_wraps [OF i] have "index (fst (snd (repeat 2 next_image fully_annotated_session))) = Some 0"
    by blast
  moreover from p have "prev_image (?s, ?fs)
      = (Inr (), (fst (snd (prev_image fully_annotated_session)),
                  snd (snd (prev_image fully_annotated_session))))"
    by (simp add: prod_eq_iff)
  with index_wraps [OF i] n have "index (fst (snd (prev_image fully_annotated_session))) = Some 1"
    by fastforce
  ultimately show ?thesis
    using i n r p by simp
qed

text \<open>
  With a second image that cannot be decoded, the first Next raises on the assertion
  after \<^verbatim>\<open>cv2.imread\<close>, the run ends, and the index is left at 1.
\<close>

lemma unreadable_image_stops_navigation:
  "index (fst half_readable_session) = Some 0
   \<and> length (img_paths (fst half_readable_session)) = 2
   \<and> error_of (fst (repeat 2 next_image half_readable_session))
       = Some (AssertionError Could_Not_Read_Image)
   \<and> index (fst (snd (repeat 2 next_image half_readable_session))) = Some 1"
  by code_simp

text \<open>
  C4: in a session over N images the index should wrap modulo N under navigation: Next
  invoked N times from index 0 should return the index to 0, and Previous invoked at
  index 0 should land on index N - 1.  The code departs from this on a folder of two
  images that can both be decoded and have no annotation yet.  The first Next raises
  \<^verbatim>\<open>FileNotFoundError\<close>, and so does Previous, which leaves the index at 0 and not
  at 1: the record of the image is empty, and
  \<^verbatim>\<open>_remove_annotation_file_when_empty\<close> tests
  \<^verbatim>\<open>not bboxes or not labels and isfile(path)\<close>, so it calls \<^verbatim>\<open>os.remove\<close> on an
  annotation file that was never written.
\<close>

theorem navigation_departs_from_claim:
  "index (fst fresh_session) = Some 0
   \<and> length (img_paths (fst fresh_session)) = 2
   \<and> imread (snd fresh_session) ''/d/a.jpg'' = Some (4, 6, 3)
   \<and> imread (snd fresh_session) ''/d/b.jpg'' = Some (4, 6, 3)
   \<and> current_bboxes (fst fresh_session) = []
   \<and> os_path_exists (snd fresh_session) ''/d/Annotations/a.xml'' = False
   \<and> error_of (fst (next_image fresh_session)) = Some FileNotFoundError
   \<and> index (fst (snd (next_image fresh_session))) = Some 0
   \<and> error_of (fst (repeat 2 next_image fresh_session)) = Some FileNotFoundError
   \<and> error_of (fst (prev_image fresh_session)) = Some FileNotFoundError
   \<and> index (fst (snd (prev_image fresh_session))) = Some 0"
  by code_simp

section \<open>Transitions and the annotation file\<close>

lemma os_path_basename_no_slash: "CHR ''/'' \<notin> set (os_path_basename p)"
proof -
  have "\<forall>c \<in> set (takeWhile (\<lambda>c. c \<noteq> CHR ''/'') (rev p)). c \<noteq> CHR ''/''"
    by (auto dest: set_takeWhileD)
  then show ?thesis
    by (auto simp: os_path_basename_def)
qed

lemma not_abs_basename: "\<not> is_abs (os_path_basename p @ ext)" if "\<not> is_abs ext"
  using os_path_basename_no_slash [of p] that
  by (cases "os_path_basename p") (auto simp: is_abs_def)

lemma os_path_join_abs: "is_abs b \<Longrightarrow> os_path_join a b = b"
  by (simp add: os_path_join_def)

lemma annotation_dir_abs:
  assumes "is_abs (folder s)"
  shows "is_abs (annotation_dir s)" and "annotation_dir s \<noteq> []"
    and "last (annotation_dir s) = CHR ''/''"
  using assms
  by (auto simp: annotation_dir_def os_path_join_def ANNOTATION_DEFAULT_DIR_def is_abs_def
      split: list.splits)

lemma write_path_eq:
  assumes "is_abs (folder s)"
  shows "os_path_join (os_path_join dir (annotation_dir s)) (os_path_basename stem) @ ''.xml''
           = annotation_dir s @ os_path_basename stem @ ''.xml''"
    and "os_path_join (annotation_dir s) (os_path_basename stem @ ''.xml'')
           = annotation_dir s @ os_path_basename stem @ ''.xml''"
proof -
  have "\<not> is_abs (os_path_basename stem @ [])" "\<not> is_abs (os_path_basename stem @ ''.xml'')"
    by (rule not_abs_basename; simp add: is_abs_def)+
  with annotation_dir_abs [OF assms]
  show "os_path_join (os_path_join dir (annotation_dir s)) (os_path_basename stem) @ ''.xml''
           = annotation_dir s @ os_path_basename stem @ ''.xml''"
    and "os_path_join (annotation_dir s) (os_path_basename stem @ ''.xml'')
           = annotation_dir s @ os_path_basename stem @ ''.xml''"
    by (simp_all add: os_path_join_abs) (simp_all add: os_path_join_def)
qed

lemma os_remove_success:
  assumes "os_remove p fs = (Inr (), fs')"
  shows "os_path_isfile fs p"
    and "fs' = fs\<lparr>entries := AList.delete (resolve fs p) (entries fs)\<rparr>"
    and "\<not> os_path_exists fs' p"
proof -
  from assms obtain c where c: "stat fs p = Some (File c)"
    by (auto simp: os_remove_def split: option.splits node.splits)
  then show "os_path_isfile fs p"
    by (simp add: os_path_isfile_def)
  from assms c show fs': "fs' = fs\<lparr>entries := AList.delete (resolve fs p) (entries fs)\<rparr>"
    by (simp add: os_remove_def)
  from c have "resolve fs p \<noteq> []" "p \<noteq> []"
    by (auto simp: stat_def split: if_splits)
  with fs' show "\<not> os_path_exists fs' p"
    by (simp add: os_path_exists_def stat_def node_at_def resolve_def delete_conv)
qed

lemma os_remove_failure: "os_remove p fs = (Inl e, fs') \<Longrightarrow> fs' = fs"
  by (auto simp: os_remove_def split: option.splits node.splits)

lemma os_mkdir_keeps:
  assumes "os_mkdir p fs = (r, fs')"
  shows "cwd fs' = cwd fs" and "node_at fs q \<noteq> None \<Longrightarrow> node_at fs' q = node_at fs q"
  using assms
  by (auto simp: os_mkdir_def Let_def put_node_def node_at_def update_conv'
      split: if_splits option.splits)

lemma write_file_keeps:
  assumes "write_file p data fs = (r, fs')"
  shows "cwd fs' = cwd fs" and "node_at fs q \<noteq> None \<Longrightarrow> node_at fs' q \<noteq> None"
  using assms
  by (auto simp: write_file_cases put_node_def node_at_def update_conv' split: if_splits)

lemma generate_from_image_keeps:
  assumes "generate_pascalvoc_annotation_from_image img obj_names bboxes p overwrite fs = (r, fs')"
  shows "cwd fs' = cwd fs" and "node_at fs q \<noteq> None \<Longrightarrow> node_at fs' q \<noteq> None"
  using assms
  by (cases "annotation_tree img obj_names bboxes";
      auto simp: generate_pascalvoc_annotation_from_image_def andthen_def lift_def
        write_annotation_def split: if_splits dest: write_file_keeps)+

lemma generate_from_image_file_success:
  assumes "generate_pascvalvoc_annotation_from_image_file p obj_names bboxes (Some adir) True fs
             = (Inr (), fs')"
  shows "\<exists>img doc. imread fs p = Some img \<and> annotation_tree img obj_names bboxes = Inr doc
           \<and> stat fs' (os_path_join (os_path_join (os_path_dirname (fst (os_path_splitext p))) adir)
                          (os_path_basename (fst (os_path_splitext p))) @ ''.xml'')
               = Some (File (Document doc))"
    and "node_at fs q \<noteq> None \<Longrightarrow> node_at fs' q \<noteq> None"
proof -
  let ?stem = "fst (os_path_splitext p)"
  let ?dir = "os_path_join (os_path_dirname ?stem) adir"
  let ?path = "os_path_join ?dir (os_path_basename ?stem) @ ''.xml''"
  from assms obtain img where img: "imread fs p = Some img"
    by (auto simp: generate_pascvalvoc_annotation_from_image_file_def Let_def
        split: option.splits)
  with assms obtain fs1 where
    dir: "fs1 = fs \<or> os_mkdir ?dir fs = (Inr (), fs1)"
    and written: "generate_pascalvoc_annotation_from_image img obj_names bboxes ?path True fs1
                  = (Inr (), fs')"
    by (auto simp: generate_pascvalvoc_annotation_from_image_file_def Let_def andthen_def
        succeed_def split: if_splits prod.splits sum.splits)
  from generate_from_image_success [OF written] img
  show "\<exists>img doc. imread fs p = Some img \<and> annotation_tree img obj_names bboxes = Inr doc
           \<and> stat fs' ?path = Some (File (Document doc))"
    by auto
  assume "node_at fs q \<noteq> None"
  with dir have "node_at fs1 q \<noteq> None"
    by (auto dest: os_mkdir_keeps(2))
  with written show "node_at fs' q \<noteq> None"
    by (rule generate_from_image_keeps(2))
qed

lemma append_objects_failure:
  assumes "\<not> (\<forall>(n, b) \<in> set pairs. xml_compatible (py_str n))"
  shows "append_objects root pairs = Inl ValueError"
  using assms
proof (induction pairs arbitrary: root)
  case Nil
  then show ?case by simp
next
  case (Cons a pairs)
  obtain n b where a: "a = (n, b)" by (rule prod.exhaust)
  with Cons show ?case
    by (cases "xml_compatible (py_str n)")
       (auto simp: generate_object_annotation_eq attempt_def)
qed

lemma annotation_tree_success:
  assumes "annotation_tree shape obj_names bboxes = Inr doc"
  shows "doc = annotation_document shape (zip (map py_str obj_names) bboxes)"
proof -
  let ?pairs = "zip obj_names bboxes"
  have "\<forall>(n, b) \<in> set ?pairs. xml_compatible (py_str n)"
  proof (rule ccontr)
    assume "\<not> ?thesis"
    then have "append_objects root ?pairs = Inl ValueError" for root
      by (rule append_objects_failure)
    with assms show False
      by (cases shape) (simp add: annotation_tree_def attempt_def)
  qed
  then have "append_objects root ?pairs =
           Inr (Element (tag root) (elem_text root)
                  (children root @ map (\<lambda>(n, b). object_block (py_str n) b) ?pairs))" for root
    by (rule append_objects_eq)
  with assms show ?thesis
    by (cases shape)
       (auto simp: annotation_tree_def attempt_def append_child_def
         ROOT_NAME_def annotation_document_def zip_map1 case_prod_unfold comp_def)
qed

lemma perform_setter:
  assumes "perform t (s, fs) = (r, w)" "t \<noteq> Quit \<or> changed s" "index s = Some i"
  obtains v where "index_setter v (s, fs) = (r, w)"
  using assms
  by (cases t)
     (auto simp: perform_def next_image.simps prev_image.simps exit_session.simps index_getter_def)

lemma save_skipped:
  assumes "\<not> (cur_img s \<noteq> None \<and> current_bboxes s \<noteq> [] \<and> changed s)"
  shows "save_when_changed (s, fs) = (Inr (), (s, fs))"
  using assms by (auto simp: save_when_changed.simps)

lemma remove_skipped:
  assumes "current_bboxes s \<noteq> []" "current_labels s \<noteq> []"
  shows "remove_annotation_file_when_empty (s, fs) = (r, w) \<Longrightarrow> w = (s, fs)"
  using assms
  by (auto simp: remove_annotation_file_when_empty.simps split: if_splits sum.splits)

lemma reachable_facts:
  assumes "reachable (s, fs)"
  shows "length (current_bboxes s) = length (current_labels s)" and "index_ok s" and "heap_inv s"
  using reachable_session_inv [OF assms]
  by (auto simp: session_inv_def heap_inv_def dest: heap_ok_curD)

lemma setter_on_empty_record:
  assumes setter: "index_setter v (s, fs) = (Inr (), (s', fs'))"
    and p: "cur_img_path s = Inr p" and empty: "current_bboxes s = []"
  shows "os_remove (annotation_file_path s p) fs = (Inr (), fs')"
proof -
  from p have index: "index s \<noteq> None"
    by (cases "index s") (auto simp: cur_img_path_def)
  from setter show ?thesis
  proof (cases rule: index_setter_cases)
    case (loaded fs1)
    from empty have "save_when_changed (s, fs) = (Inr (), (s, fs))"
      by (intro save_skipped) simp
    with loaded(1) have "fs1 = fs"
      by simp
    with loaded(2) p empty index show ?thesis
      by (auto simp: remove_annotation_file_when_empty.simps split: prod.splits)
  qed auto
qed

lemma setter_on_changed_record:
  assumes setter: "index_setter v (s, fs) = (Inr (), (s', fs'))"
    and p: "cur_img_path s = Inr p" and boxes: "current_bboxes s \<noteq> []"
    and len: "length (current_bboxes s) = length (current_labels s)"
    and changed: "changed s" "cur_img s \<noteq> None"
  shows "generate_pascvalvoc_annotation_from_image_file p (map label_val (current_labels s))
           (current_bboxes s) (Some (annotation_dir s)) True fs = (Inr (), fs')"
  using setter
proof (cases rule: index_setter_cases)
  case (loaded fs1)
  from boxes len have labels: "current_labels s \<noteq> []"
    by auto
  from loaded(2) have "fs' = fs1"
    using remove_skipped [OF boxes labels] by blast
  with loaded(1) p boxes len changed show ?thesis
    by (auto simp: save_when_changed.simps split: prod.splits)
qed auto

lemma setter_on_unchanged_record:
  assumes setter: "index_setter v (s, fs) = (Inr (), (s', fs'))"
    and boxes: "current_bboxes s \<noteq> []"
    and len: "length (current_bboxes s) = length (current_labels s)"
    and unchanged: "\<not> (changed s \<and> cur_img s \<noteq> None)"
  shows "fs' = fs"
  using setter
proof (cases rule: index_setter_cases)
  case (loaded fs1)
  from boxes len have labels: "current_labels s \<noteq> []"
    by auto
  from loaded(2) have "fs' = fs1"
    using remove_skipped [OF boxes labels] by blast
  moreover from unchanged have "save_when_changed (s, fs) = (Inr (), (s, fs))"
    by (intro save_skipped) blast
  with loaded(1) have "fs1 = fs"
    by simp
  ultimately show ?thesis
    by simp
qed auto

text \<open>
  What a transition that returns does to the annotation file, in a session on a folder
  given by an absolute path.  After a Next or Previous transition that returns, or a
  Quit transition that returns while the image is marked changed: if the outgoing
  image's record was empty, there is no annotation file for it, and nothing was written;
  if the record was non-empty and marked changed, and an image is loaded, the annotation
  file exists, holds the record (reading it gives the boxes and the labels back) and
  nothing was deleted; if the record was non-empty and either not marked changed or
  without a loaded image (after a load that failed), the file system is left as it was.
  A Quit transition while the image is not marked changed leaves the session and the
  file system as they were.
\<close>

lemma transition_reconciles_annotation_file:
  assumes "reachable (s, fs)" and "is_abs (folder s)" and "cur_img_path s = Inr p"
    and "perform t (s, fs) = (Inr (), (s', fs'))"
  shows "(t = Quit \<and> \<not> changed s \<longrightarrow> s' = s \<and> fs' = fs)
       \<and> ((t \<noteq> Quit \<or> changed s) \<and> current_bboxes s = [] \<longrightarrow>
            fs' = fs\<lparr>entries := AList.delete (resolve fs (annotation_file_path s p)) (entries fs)\<rparr>
            \<and> \<not> os_path_exists fs' (annotation_file_path s p))
       \<and> ((t \<noteq> Quit \<or> changed s) \<and> current_bboxes s \<noteq> [] \<and> changed s \<and> cur_img s \<noteq> None \<longrightarrow>
            (\<exists>img doc. imread fs p = Some img
               \<and> annotation_tree img (map label_val (current_labels s)) (current_bboxes s) = Inr doc
               \<and> stat fs' (annotation_file_path s p) = Some (File (Document doc)))
            \<and> parse_pascalvoc_annoation fs' (annotation_file_path s p)
                 = Inr (current_bboxes s,
                        map (text_read_back \<circ> py_str \<circ> label_val) (current_labels s))
            \<and> (\<forall>q. node_at fs q \<noteq> None \<longrightarrow> node_at fs' q \<noteq> None))
       \<and> ((t \<noteq> Quit \<or> changed s) \<and> current_bboxes s \<noteq> [] \<and> \<not> (changed s \<and> cur_img s \<noteq> None) \<longrightarrow>
            fs' = fs)"
proof (cases "t = Quit \<and> \<not> changed s")
  case True
  with assms(4) show ?thesis
    by (simp add: perform_def exit_session.simps)
next
  case False
  from assms(3) obtain i where "index s = Some i"
    by (cases "index s") (auto simp: cur_img_path_def)
  with assms(4) False obtain v where setter: "index_setter v (s, fs) = (Inr (), (s', fs'))"
    by (auto elim: perform_setter)
  note len = reachable_facts(1) [OF assms(1)]
  let ?af = "annotation_file_path s p"
  have empty: "fs' = fs\<lparr>entries := AList.delete (resolve fs ?af) (entries fs)\<rparr>
      \<and> \<not> os_path_exists fs' ?af" if "current_bboxes s = []"
    using os_remove_success [OF setter_on_empty_record [OF setter assms(3) that]] by simp
  have saved: "(\<exists>img doc. imread fs p = Some img
               \<and> annotation_tree img (map label_val (current_labels s)) (current_bboxes s) = Inr doc
               \<and> stat fs' ?af = Some (File (Document doc)))
            \<and> parse_pascalvoc_annoation fs' ?af
                 = Inr (current_bboxes s,
                        map (text_read_back \<circ> py_str \<circ> label_val) (current_labels s))
            \<and> (\<forall>q. node_at fs q \<noteq> None \<longrightarrow> node_at fs' q \<noteq> None)"
    if "current_bboxes s \<noteq> []" "changed s" "cur_img s \<noteq> None"
  proof -
    note gen = setter_on_changed_record [OF setter assms(3) that(1) len that(2,3)]
    have path: "os_path_join (os_path_join (os_path_dirname (fst (os_path_splitext p)))
                   (annotation_dir s)) (os_path_basename (fst (os_path_splitext p))) @ ''.xml''
                = ?af"
      using write_path_eq [OF assms(2)] by (simp add: annotation_file_path_def)
    from generate_from_image_file_success(1) [OF gen] path obtain img doc where
      doc: "imread fs p = Some img"
        "annotation_tree img (map label_val (current_labels s)) (current_bboxes s) = Inr doc"
        "stat fs' ?af = Some (File (Document doc))"
      by auto
    let ?objects = "zip (map py_str (map label_val (current_labels s))) (current_bboxes s)"
    from len have "map snd ?objects = current_bboxes s"
      "map fst ?objects = map py_str (map label_val (current_labels s))"
      by simp_all
    then have "map snd ?objects = current_bboxes s"
      "map (text_read_back \<circ> fst) ?objects
         = map (text_read_back \<circ> py_str \<circ> label_val) (current_labels s)"
      by (simp_all flip: map_map)
    with annotation_tree_success [OF doc(2)] parse_annotation_document [of img ?objects]
    have "parse_tree (reread doc) =
            Inr (current_bboxes s, map (text_read_back \<circ> py_str \<circ> label_val) (current_labels s))"
      by simp
    with doc(3) have "parse_pascalvoc_annoation fs' ?af
        = Inr (current_bboxes s, map (text_read_back \<circ> py_str \<circ> label_val) (current_labels s))"
      by (simp add: parse_pascalvoc_annoation_def ET_parse_def attempt_def)
    with doc generate_from_image_file_success(2) [OF gen] show ?thesis
      by blast
  qed
  have unchanged: "fs' = fs"
    if "current_bboxes s \<noteq> []" "\<not> (changed s \<and> cur_img s \<noteq> None)"
    using setter_on_unchanged_record [OF setter that(1) len that(2)] .
  from False empty saved unchanged show ?thesis
    by blast
qed

lemma reachable_constructed:
  assumes "succeeds (init dir label fs)"
  shows "reachable (case init dir label fs of Inl _ \<Rightarrow> w0 | Inr w \<Rightarrow> w)"
  using assms by (cases "init dir label fs") (auto simp: succeeds_def intro: reachable.start)

lemma reachable_example_sessions:
  "reachable (fst empty_annotation_session, snd empty_annotation_session)"
  "reachable (fst fully_annotated_session, snd fully_annotated_session)"
proof -
  have "succeeds (init ''/d'' ''cat'' empty_annotation_disk)"
    "succeeds (init ''/d'' ''cat'' fully_annotated_disk)"
    by code_simp+
  then show "reachable (fst empty_annotation_session, snd empty_annotation_session)"
    "reachable (fst fully_annotated_session, snd fully_annotated_session)"
    by (simp_all add: empty_annotation_session_def fully_annotated_session_def
        reachable_constructed)
qed

text \<open>
  The four cases: Quit on a fresh session, Next away from an empty record with a stale
  file, Next after a box was drawn, Previous away from an unchanged record.
\<close>

lemma transition_reconciles_annotation_file_example:
  "snd (perform Quit fresh_session) = fresh_session
   \<and> os_path_isfile (snd empty_annotation_session) ''/d/Annotations/a.xml''
   \<and> \<not> os_path_exists (snd (snd (perform Next empty_annotation_session))) ''/d/Annotations/a.xml''
   \<and> parse_pascalvoc_annoation (snd (snd (perform Next drawn_session))) ''/d/Annotations/a.xml''
       = Inr ([(10, 10, 50, 50)], [Some ''cat''])
   \<and> snd (snd (perform Previous fully_annotated_session)) = snd fully_annotated_session"
proof -
  have quit: "perform Quit (fst fresh_session, snd fresh_session)
      = (Inr (), (fst (snd (perform Quit fresh_session)), snd (snd (perform Quit fresh_session))))"
    and stale: "perform Next (fst empty_annotation_session, snd empty_annotation_session)
      = (Inr (), (fst (snd (perform Next empty_annotation_session)),
                  snd (snd (perform Next empty_annotation_session))))"
    and drawn: "perform Next (fst drawn_session, snd drawn_session)
      = (Inr (), (fst (snd (perform Next drawn_session)), snd (snd (perform Next drawn_session))))"
    and kept: "perform Previous (fst fully_annotated_session, snd fully_annotated_session)
      = (Inr (), (fst (snd (perform Previous fully_annotated_session)),
                  snd (snd (perform Previous fully_annotated_session))))"
  proof -
    have "fst (perform Quit fresh_session) = Inr ()"
      "fst (perform Next empty_annotation_session) = Inr ()"
      "fst (perform Next drawn_session) = Inr ()"
      "fst (perform Previous fully_annotated_session) = Inr ()"
      by code_simp+
    then show
      "perform Quit (fst fresh_session, snd fresh_session)
        = (Inr (), (fst (snd (perform Quit fresh_session)), snd (snd (perform Quit fresh_session))))"
      "perform Next (fst empty_annotation_session, snd empty_annotation_session)
        = (Inr (), (fst (snd (perform Next empty_annotation_session)),
                    snd (snd (perform Next empty_annotation_session))))"
      "perform Next (fst drawn_session, snd drawn_session)
        = (Inr (), (fst (snd (perform Next drawn_session)), snd (snd (perform Next drawn_session))))"
      "perform Previous (fst fully_annotated_session, snd fully_annotated_session)
        = (Inr (), (fst (snd (perform Previous fully_annotated_session)),
                    snd (snd (perform Previous fully_annotated_session))))"
      by (simp_all add: prod_eq_iff)
  qed
  have reach: "reachable (fst fresh_session, snd fresh_session)"
    "reachable (fst drawn_session, snd drawn_session)"
    using reachable_fresh_session reachable_drawn_session by simp_all
  have abs: "is_abs (folder (fst fresh_session))" "is_abs (folder (fst empty_annotation_session))"
    "is_abs (folder (fst drawn_session))" "is_abs (folder (fst fully_annotated_session))"
    by code_simp+
  have path: "cur_img_path (fst fresh_session) = Inr ''/d/a.jpg''"
    "cur_img_path (fst empty_annotation_session) = Inr ''/d/a.jpg''"
    "cur_img_path (fst drawn_session) = Inr ''/d/a.jpg''"
    "cur_img_path (fst fully_annotated_session) = Inr ''/d/a.jpg''"
    by code_simp+
  have afile: "annotation_file_path (fst empty_annotation_session) ''/d/a.jpg'' = ''/d/Annotations/a.xml''"
    "annotation_file_path (fst drawn_session) ''/d/a.jpg'' = ''/d/Annotations/a.xml''"
    by code_simp+
  have state: "\<not> changed (fst fresh_session)"
    "current_bboxes (fst empty_annotation_session) = []"
    "current_bboxes (fst drawn_session) = [(10, 10, 50, 50)]"
    "current_labels (fst drawn_session) = [Some ''cat'']"
    "changed (fst drawn_session)" "cur_img (fst drawn_session) \<noteq> None"
    "current_bboxes (fst fully_annotated_session) \<noteq> []"
    "\<not> changed (fst fully_annotated_session)"
    by code_simp+
  from transition_reconciles_annotation_file [OF reach(1) abs(1) path(1) quit] state(1)
  have "snd (perform Quit fresh_session) = fresh_session"
    by (simp add: prod_eq_iff)
  moreover
  have "os_path_isfile (snd empty_annotation_session) ''/d/Annotations/a.xml''
        \<and> \<not> os_path_exists (snd (snd (perform Next empty_annotation_session))) ''/d/Annotations/a.xml''"
  proof -
    have pre: "(Next \<noteq> Quit \<or> changed (fst empty_annotation_session))
               \<and> current_bboxes (fst empty_annotation_session) = []"
      using state(2) by simp
    note removed = transition_reconciles_annotation_file
      [OF reachable_example_sessions(1) abs(2) path(2) stale, THEN conjunct2, THEN conjunct1,
       rule_format, OF pre]
    have "os_path_isfile (snd empty_annotation_session) ''/d/Annotations/a.xml''"
      by code_simp
    with removed [THEN conjunct2] show ?thesis
      by (simp only: afile(1) simp_thms)
  qed
  moreover
  from transition_reconciles_annotation_file [OF reach(2) abs(3) path(3) drawn] state(3-6) afile(2)
  have "parse_pascalvoc_annoation (snd (snd (perform Next drawn_session))) ''/d/Annotations/a.xml''
       = Inr ([(10, 10, 50, 50)], [Some ''cat''])"
    by (simp add: text_read_back_def label_val_def)
  moreover
  from transition_reconciles_annotation_file [OF reachable_example_sessions(2) abs(4) path(4) kept]
    state(7,8)
  have "snd (snd (perform Previous fully_annotated_session)) = snd fully_annotated_session"
    by simp
  ultimately show ?thesis
    by simp
qed

text \<open>
  The Quit transition on an image that is not marked changed does nothing: it leaves the
  annotation file of an empty record in place, here a saved file that holds no object.
\<close>

lemma quit_keeps_file_of_empty_record:
  "fst (perform Quit empty_annotation_session) = Inr ()
   \<and> cur_img_path (fst (snd (perform Quit empty_annotation_session))) = Inr ''/d/a.jpg''
   \<and> annotation_file_path (fst (snd (perform Quit empty_annotation_session))) ''/d/a.jpg''
       = ''/d/Annotations/a.xml''
   \<and> bbox_lists (fst (snd (perform Quit empty_annotation_session)))
        (cur_bboxes (fst (snd (perform Quit empty_annotation_session)))) = []
   \<and> os_path_isfile (snd (snd (perform Quit empty_annotation_session))) ''/d/Annotations/a.xml''"
  by code_simp

text \<open>
  C1: after any Next, Previous or Quit transition, an annotation file should exist for
  the image exactly when its record is non-empty at the moment of the transition, the
  file being written or removed as needed.  The code departs from this in three places.
  Started on a folder named by a relative path, the session loads and removes
  \<^verbatim>\<open>d/Annotations/a.xml\<close> but saves under \<^verbatim>\<open>d/d/Annotations/\<close>, because the save joins the
  folder of the image with an annotation directory that already starts with it: Next
  after a box was drawn raises \<^verbatim>\<open>FileNotFoundError\<close> in \<^verbatim>\<open>os.mkdir\<close>, and the non-empty
  record has no file.  On an empty record without annotation file, here after a box was
  drawn and undone, Quit raises \<^verbatim>\<open>FileNotFoundError\<close>, and so does Previous on a session
  just started: \<^verbatim>\<open>_remove_annotation_file_when_empty\<close> calls \<^verbatim>\<open>os.remove\<close> without the
  test that the file exists.  And after Clear of a saved image, whose changed flag the
  assignment to \<^verbatim>\<open>index\<close> has reset, Quit returns and leaves the annotation file of the
  empty record on disk.
\<close>

theorem transition_departs_from_claim:
  "folder (fst relative_drawn_session) = ''d''
   \<and> cur_img_path (fst relative_drawn_session) = Inr ''d/a.jpg''
   \<and> annotation_file_path (fst relative_drawn_session) ''d/a.jpg'' = ''d/Annotations/a.xml''
   \<and> current_bboxes (fst relative_drawn_session) = [(10, 10, 50, 50)]
   \<and> changed (fst relative_drawn_session) = True
   \<and> error_of (fst (perform Next relative_drawn_session)) = Some FileNotFoundError
   \<and> current_bboxes (fst (snd (perform Next relative_drawn_session))) = [(10, 10, 50, 50)]
   \<and> snd (snd (perform Next relative_drawn_session)) = example_disk
   \<and> os_path_exists (snd (snd (perform Next relative_drawn_session))) ''d/Annotations/a.xml''
       = False
   \<and> current_bboxes (fst undone_session) = []
   \<and> changed (fst undone_session) = True
   \<and> os_path_exists (snd undone_session) ''/d/Annotations/a.xml'' = False
   \<and> error_of (fst (perform Quit undone_session)) = Some FileNotFoundError
   \<and> error_of (fst (perform Previous fresh_session)) = Some FileNotFoundError
   \<and> fst (perform Quit cleared_session) = Inr ()
   \<and> current_bboxes (fst (snd (perform Quit cleared_session))) = []
   \<and> os_path_isfile (snd (snd (perform Quit cleared_session))) ''/d/Annotations/a.xml''
       = True"
  by code_simp

section \<open>Clear\<close>

lemma load_image_success:
  assumes load: "load_image v (s, fs) = (Inr (), (s', fs'))"
  defines "p \<equiv> img_paths s ! nat (v mod int (length (img_paths s)))"
  shows "annotations s' p = Some (cur_bboxes s', cur_labels s')"
    and "\<not> changed s'" and "cur_img s' \<noteq> None"
    and "annotations s p = None \<Longrightarrow> current_bboxes s' = [] \<and> current_labels s' = []"
    and "annotations s p = Some (a, b) \<Longrightarrow> cur_bboxes s' = a \<and> cur_labels s' = b"
    and "annotations s q = Some e \<Longrightarrow> annotations s' q = Some e"
    and "c < next_addr s \<Longrightarrow> bbox_lists s' c = bbox_lists s c \<and> label_lists s' c = label_lists s c"
    and "next_addr s \<le> next_addr s'"
    and "index s' = Some (v mod int (length (img_paths s)))"
    and "img_paths s' = img_paths s" and "folder s' = folder s" and "img_paths s \<noteq> []"
proof -
  from load have paths: "img_paths s \<noteq> []"
    by (auto simp: load_image.simps)
  let ?i = "v mod int (length (img_paths s))"
  from paths have "0 \<le> ?i" "?i < int (length (img_paths s))"
    by simp_all
  then have path: "cur_img_path (s\<lparr>index := Some ?i\<rparr>) = Inr p"
    unfolding p_def by (intro cur_img_path_in_range [THEN trans]) simp_all
  note unfold = load_image.simps Let_def store_lists_def
  from load paths path show "annotations s' p = Some (cur_bboxes s', cur_labels s')"
    by (auto simp: unfold split: if_splits option.splits)
  from load paths path show "\<not> changed s'" "cur_img s' \<noteq> None"
    by (auto simp: unfold split: if_splits option.splits)
  from load paths path show "current_bboxes s' = [] \<and> current_labels s' = []"
    if "annotations s p = None"
    using that by (auto simp: unfold split: if_splits option.splits)
  from load paths path show "cur_bboxes s' = a \<and> cur_labels s' = b"
    if "annotations s p = Some (a, b)"
    using that by (auto simp: unfold split: if_splits option.splits)
  from load paths path show "annotations s' q = Some e" if "annotations s q = Some e"
    using that by (auto simp: unfold split: if_splits option.splits)
  from load paths path
  show "bbox_lists s' c = bbox_lists s c \<and> label_lists s' c = label_lists s c"
    if "c < next_addr s"
    using that by (auto simp: unfold split: if_splits option.splits)
  from load paths path show "next_addr s \<le> next_addr s'"
    by (auto simp: unfold split: if_splits option.splits)
  from load_image_index [OF load paths] paths
  show "index s' = Some ?i" "img_paths s' = img_paths s" "folder s' = folder s" "img_paths s \<noteq> []"
    by simp_all
qed

lemma os_remove_keeps_absent:
  assumes "os_remove q fs = (r, fs')" "\<not> os_path_exists fs p"
  shows "\<not> os_path_exists fs' p"
  using assms
  by (auto simp: os_remove_def os_path_exists_def stat_def node_at_def resolve_def delete_conv
      split: option.splits node.splits if_splits)

lemma setter_unchanged_keeps_absent:
  assumes setter: "index_setter v (s, fs) = (r, (s', fs'))" and "\<not> changed s"
    and absent: "\<not> os_path_exists fs p"
  shows "\<not> os_path_exists fs' p"
proof -
  have save: "save_when_changed (s, fs) = (Inr (), (s, fs))"
    using assms(2) by (intro save_skipped) simp
  have removed: "\<not> os_path_exists fs2 p"
    if "remove_annotation_file_when_empty (s, fs) = (r2, (s2, fs2))" for r2 s2 fs2
    using that absent
    by (auto simp: remove_annotation_file_when_empty.simps
        split: if_splits sum.splits prod.splits dest: os_remove_keeps_absent)
  from setter show ?thesis
  proof (cases rule: index_setter_cases)
    case (save_failed e)
    with save show ?thesis by simp
  next
    case (remove_failed e fs1)
    with save removed show ?thesis by auto
  next
    case (loaded fs1)
    with save removed show ?thesis by auto
  qed
qed

lemma index_ok_path:
  assumes "index_ok s" "cur_img_path s = Inr p"
  obtains i where "index s = Some i" "0 \<le> i" "i < int (length (img_paths s))"
    "p = img_paths s ! nat i" "i mod int (length (img_paths s)) = i"
proof -
  from assms(1) obtain i where i: "index s = Some i" "0 \<le> i" "i < int (length (img_paths s))"
    by (cases "index s") (auto simp: index_ok_def)
  with assms(2) have "p = img_paths s ! nat i"
    by (simp add: cur_img_path_def)
  with i show thesis
    by (intro that [of i]) simp_all
qed

lemma cur_img_path_fields:
  "index s' = index s \<Longrightarrow> img_paths s' = img_paths s \<Longrightarrow> cur_img_path s' = cur_img_path s"
  by (cases "index s") (simp_all add: cur_img_path_def Let_def)

lemma clear_success:
  assumes cleared: "clear (s, fs) = (Inr (), (s1, fs1))" and inv: "session_inv s"
    and p: "cur_img_path s = Inr p" and boxes: "current_bboxes s \<noteq> []"
  shows "fs1 = fs" and "\<not> changed s1" and "current_bboxes s1 = []" and "current_labels s1 = []"
    and "index s1 = index s" and "annotations s1 p = Some (cur_bboxes s1, cur_labels s1)"
    and "img_paths s1 = img_paths s" and "folder s1 = folder s"
proof -
  from inv have ok: "index_ok s" and len: "length (current_bboxes s) = length (current_labels s)"
    by (auto simp: session_inv_def heap_inv_def dest: heap_ok_curD)
  from ok p obtain i where i: "index s = Some i" "p = img_paths s ! nat i"
    "i mod int (length (img_paths s)) = i"
    by (rule index_ok_path)
  let ?s1 = "s\<lparr>cur_img := None, changed := True\<rparr>"
  let ?s2 = "if annotations ?s1 p \<noteq> None
             then ?s1\<lparr>annotations := (annotations ?s1)(p := None)\<rparr> else ?s1"
  from p have p1: "cur_img_path ?s1 = Inr p"
    by (subst cur_img_path_fields [of _ s]) simp_all
  from i have "index_getter ?s2 = Inr i"
    by (simp add: index_getter_def)
  with cleared p1 have setter: "index_setter i (?s2, fs) = (Inr (), (s1, fs1))"
    by (simp add: clear.simps Let_def)
  have s2: "cur_img ?s2 = None" "current_bboxes ?s2 = current_bboxes s"
    "current_labels ?s2 = current_labels s" "annotations ?s2 p = None"
    "img_paths ?s2 = img_paths s" "folder ?s2 = folder s"
    by (cases "annotations s p"; simp)+
  from boxes len have labels: "current_labels s \<noteq> []"
    by auto
  from setter have "load_image i (?s2, fs) = (Inr (), (s1, fs1)) \<and> fs1 = fs"
  proof (cases rule: index_setter_cases)
    case (loaded fs')
    have "save_when_changed (?s2, fs) = (Inr (), (?s2, fs))"
      by (intro save_skipped) (simp only: s2, simp)
    with loaded(1) have "fs' = fs"
      by simp
    moreover from loaded(2) have "fs1 = fs'"
      using remove_skipped [of ?s2 fs' "Inr ()" "(?s2, fs1)"] boxes labels
      by (simp only: s2) simp
    ultimately show ?thesis
      using loaded(3) by simp
  qed auto
  then have load: "load_image i (?s2, fs) = (Inr (), (s1, fs1))" and fs1: "fs1 = fs"
    by simp_all
  from fs1 show "fs1 = fs" .
  from i have path: "img_paths ?s2 ! nat (i mod int (length (img_paths ?s2))) = p"
    by (simp only: s2) simp
  from load_image_success(1,2,4,9,10,11) [OF load, unfolded path] s2(4) i
  show "\<not> changed s1" "current_bboxes s1 = []" "current_labels s1 = []"
    "index s1 = index s" "annotations s1 p = Some (cur_bboxes s1, cur_labels s1)"
    "img_paths s1 = img_paths s" "folder s1 = folder s"
    by (simp_all only: s2) simp_all
qed

lemma annotation_file_path_fields:
  "folder s' = folder s \<Longrightarrow> annotation_file_path s' p = annotation_file_path s p"
  by (simp add: annotation_file_path_def annotation_dir_def)

lemma setter_keeps_record:
  assumes setter: "index_setter v (s, fs) = (Inr (), (s', fs'))"
    and entry: "annotations s p = Some (a, b)" and alloc: "a < next_addr s" "b < next_addr s"
  shows "annotations s' p = Some (a, b)"
    and "bbox_lists s' a = bbox_lists s a" and "label_lists s' b = label_lists s b"
    and "a < next_addr s'" and "b < next_addr s'" and "\<not> changed s'"
    and "img_paths s' = img_paths s" and "folder s' = folder s"
    and "index s' = Some i \<Longrightarrow> p = img_paths s ! nat i \<Longrightarrow>
           cur_bboxes s' = a \<and> cur_labels s' = b"
proof -
  from setter obtain fs1 where load: "load_image v (s, fs1) = (Inr (), (s', fs1))"
    by (cases rule: index_setter_cases) auto
  note facts = load_image_success [OF load]
  from facts(6) [OF entry] show "annotations s' p = Some (a, b)" .
  from facts(7) alloc show "bbox_lists s' a = bbox_lists s a" "label_lists s' b = label_lists s b"
    by simp_all
  from facts(8) alloc show "a < next_addr s'" "b < next_addr s'"
    by simp_all
  from facts(2,10,11) show "\<not> changed s'" "img_paths s' = img_paths s" "folder s' = folder s"
    by simp_all
  assume "index s' = Some i" "p = img_paths s ! nat i"
  with facts(9) have "p = img_paths s ! nat (v mod int (length (img_paths s)))"
    by simp
  with facts(5) [of a b] entry show "cur_bboxes s' = a \<and> cur_labels s' = b"
    by simp
qed

text \<open>
  What Clear does when the commands return: for an image with at least one committed
  box, Clear leaves the file system as it was and the image's record empty, and the
  assignment to \<^verbatim>\<open>index\<close> at its end resets the changed flag.  If the session then
  navigates away with a Next or Previous that returns, there is no annotation file for
  the image afterwards; and once a Next or Previous has brought the session back to the
  image, at once or with a second transition that returns, the image's record has no
  boxes and no labels, and there is still no annotation file for it.
\<close>

lemma clear_then_reload:
  assumes reach: "reachable (s, fs)" and p: "cur_img_path s = Inr p"
    and boxes: "current_bboxes s \<noteq> []"
    and cleared: "clear (s, fs) = (Inr (), (s1, fs1))"
    and away: "t \<noteq> Quit" "perform t (s1, fs1) = (Inr (), (s2, fs2))"
  shows "(fs1 = fs \<and> \<not> changed s1 \<and> index s1 = index s
          \<and> current_bboxes s1 = [] \<and> current_labels s1 = [])
       \<and> \<not> os_path_exists fs2 (annotation_file_path s p)
       \<and> (index s2 = index s \<longrightarrow> current_bboxes s2 = [] \<and> current_labels s2 = [])
       \<and> (t' \<noteq> Quit \<and> perform t' (s2, fs2) = (Inr (), (s3, fs3)) \<and> index s3 = index s \<longrightarrow>
             current_bboxes s3 = [] \<and> current_labels s3 = []
             \<and> \<not> os_path_exists fs3 (annotation_file_path s p))"
proof -
  note inv = reachable_session_inv [OF reach, simplified]
  note c = clear_success [OF cleared inv p boxes]
  from c have after_clear: "fs1 = fs \<and> \<not> changed s1 \<and> index s1 = index s
         \<and> current_bboxes s1 = [] \<and> current_labels s1 = []"
    by simp
  from inv p obtain i where i: "index s = Some i" "p = img_paths s ! nat i"
    by (auto simp: session_inv_def elim: index_ok_path)
  from clear_session_inv [OF cleared inv]
  have alloc1: "cur_bboxes s1 < next_addr s1" "cur_labels s1 < next_addr s1"
    by (auto simp: session_inv_def heap_inv_def dest: heap_ok_curD)
  from c(5,7) p have p1: "cur_img_path s1 = Inr p"
    by (simp add: cur_img_path_fields [of s1 s])
  from c(8) have af1: "annotation_file_path s1 p = annotation_file_path s p"
    by (rule annotation_file_path_fields)
  from away c(5) i obtain v where setter: "index_setter v (s1, fs1) = (Inr (), (s2, fs2))"
    by (auto elim: perform_setter)
  from os_remove_success(3) [OF setter_on_empty_record [OF setter p1 c(3)]] af1
  have absent2: "\<not> os_path_exists fs2 (annotation_file_path s p)"
    by simp
  note s2 = setter_keeps_record [OF setter c(6) alloc1]
  from c(3,4) s2(2,3) have empty2:
    "bbox_lists s2 (cur_bboxes s1) = []" "label_lists s2 (cur_labels s1) = []"
    by simp_all
  have at_once: "index s2 = index s \<longrightarrow> current_bboxes s2 = [] \<and> current_labels s2 = []"
  proof
    assume "index s2 = index s"
    with i c(7) have "index s2 = Some i" "p = img_paths s1 ! nat i"
      by simp_all
    from s2(9) [OF this] empty2 show "current_bboxes s2 = [] \<and> current_labels s2 = []"
      by simp
  qed
  have "t' \<noteq> Quit \<and> perform t' (s2, fs2) = (Inr (), (s3, fs3)) \<and> index s3 = index s \<longrightarrow>
           current_bboxes s3 = [] \<and> current_labels s3 = []
           \<and> \<not> os_path_exists fs3 (annotation_file_path s p)"
  proof
    assume returned: "t' \<noteq> Quit \<and> perform t' (s2, fs2) = (Inr (), (s3, fs3)) \<and> index s3 = index s"
    from setter have "index s2 \<noteq> None"
      by (auto dest: index_setter_index(1))
    with returned obtain v' where setter': "index_setter v' (s2, fs2) = (Inr (), (s3, fs3))"
      by (auto elim: perform_setter)
    from setter_unchanged_keeps_absent [OF setter' s2(6) absent2]
    have absent3: "\<not> os_path_exists fs3 (annotation_file_path s p)" .
    note s3 = setter_keeps_record [OF setter' s2(1,4,5)]
    from returned i c(7) s2(7) have "index s3 = Some i" "p = img_paths s2 ! nat i"
      by simp_all
    from s3(9) [OF this] s3(2,3) empty2 absent3
    show "current_bboxes s3 = [] \<and> current_labels s3 = []
           \<and> \<not> os_path_exists fs3 (annotation_file_path s p)"
      by simp
  qed
  with after_clear absent2 at_once show ?thesis
    by blast
qed

text \<open>Clear, Next and Previous on the folder with both images annotated.\<close>

lemma clear_then_reload_example:
  "current_bboxes (fst fully_annotated_session) = [(10, 10, 50, 50)]
   \<and> snd cleared_session = snd fully_annotated_session
   \<and> \<not> changed (fst cleared_session)
   \<and> current_bboxes (fst cleared_session) = []
   \<and> \<not> os_path_exists (snd away_session) ''/d/Annotations/a.xml''
   \<and> index (fst returned_session) = Some 0
   \<and> current_bboxes (fst returned_session) = [] \<and> current_labels (fst returned_session) = []
   \<and> \<not> os_path_exists (snd returned_session) ''/d/Annotations/a.xml''"
proof -
  have boxes: "current_bboxes (fst fully_annotated_session) = [(10, 10, 50, 50)]"
    and path: "cur_img_path (fst fully_annotated_session) = Inr ''/d/a.jpg''"
    and afile: "annotation_file_path (fst fully_annotated_session) ''/d/a.jpg''
                  = ''/d/Annotations/a.xml''"
    and index: "index (fst returned_session) = Some 0" "index (fst fully_annotated_session) = Some 0"
    by code_simp+
  have "fst (clear fully_annotated_session) = Inr ()"
    "fst (perform Next cleared_session) = Inr ()"
    "fst (perform Previous away_session) = Inr ()"
    by code_simp+
  then have cleared: "clear (fst fully_annotated_session, snd fully_annotated_session)
                        = (Inr (), (fst cleared_session, snd cleared_session))"
    and away: "perform Next (fst cleared_session, snd cleared_session)
                 = (Inr (), (fst away_session, snd away_session))"
    and returned: "perform Previous (fst away_session, snd away_session)
                 = (Inr (), (fst returned_session, snd returned_session))"
    by (simp_all add: prod_eq_iff cleared_session_def away_session_def returned_session_def)
  from boxes have nonempty: "current_bboxes (fst fully_annotated_session) \<noteq> []"
    by simp
  have "Next \<noteq> Quit" "Previous \<noteq> Quit"
    by simp_all
  note facts = clear_then_reload [OF reachable_example_sessions(2) path nonempty cleared this(1) away,
      of Previous "fst returned_session" "snd returned_session"]
  from facts [THEN conjunct1] facts [THEN conjunct2, THEN conjunct1]
    facts [THEN conjunct2, THEN conjunct2, THEN conjunct2] returned index boxes
  show ?thesis
    by (simp add: afile)
qed

text \<open>
  C7: for every image with at least one committed box, Clear followed by navigating away
  and back should yield a record without boxes and no annotation file, and Clear itself
  should mark the image dirty, so that the empty state is reconciled later.  The code
  departs from this in two places.  Clear ends with the assignment to \<^verbatim>\<open>index\<close>, which
  resets the changed flag: after Clear of a saved image, Quit reconciles nothing and the
  annotation file stays, with an empty record.  And when the cleared box was never
  saved, so that there is no annotation file, the Next after Clear raises in
  \<^verbatim>\<open>_remove_annotation_file_when_empty\<close>, which removes the file without the test that
  it exists.
\<close>

theorem clear_departs_from_claim:
  "current_bboxes (fst drawn_session) = [(10, 10, 50, 50)]
   \<and> fst (clear drawn_session) = Inr ()
   \<and> changed (fst (snd (clear drawn_session))) = False
   \<and> error_of (fst (perform Next (snd (clear drawn_session)))) = Some FileNotFoundError
   \<and> current_bboxes (fst fully_annotated_session) = [(10, 10, 50, 50)]
   \<and> fst (clear fully_annotated_session) = Inr ()
   \<and> changed (fst cleared_session) = False
   \<and> fst (perform Quit cleared_session) = Inr ()
   \<and> current_bboxes (fst (snd (perform Quit cleared_session))) = []
   \<and> os_path_isfile (snd (snd (perform Quit cleared_session))) ''/d/Annotations/a.xml''"
  by code_simp

end
